theory Spec2Isabelle
  imports Complex_Main "HOL-Library.Code_Target_Numeral"
begin

section \<open>Machine integers, matrices and the random source\<close>

text \<open>
  The three operators are MEX functions over MATLAB matrices. A logical matrix is a flat
  buffer in column-major order: element \<open>(i, j)\<close> of a matrix with \<open>m\<close> rows lives at
  linear index \<open>i + j * m\<close>, which is how every operator of the repository computes its
  indices. The dimensions are \<open>size_t\<close> values, every loop counter and every scalar
  argument is a C \<open>int\<close>.
\<close>

record matrix =
  nrows :: nat
  ncols :: nat
  cells :: "bool list"

text \<open>
  A matrix handed over by MATLAB has as many cells as its dimensions say. The loop
  counters of the code are \<open>int\<close>, so it presupposes dimensions below \<open>2 ^ 31\<close>.
\<close>

definition wf_matrix :: "matrix \<Rightarrow> bool" where
  "wf_matrix P \<longleftrightarrow>
     length (cells P) = nrows P * ncols P \<and> nrows P < 2 ^ 31 \<and> ncols P < 2 ^ 31"

definition elem :: "matrix \<Rightarrow> nat \<Rightarrow> nat \<Rightarrow> bool" where
  "elem P i j = cells P ! (i + j * nrows P)"

definition row :: "matrix \<Rightarrow> nat \<Rightarrow> bool list" where
  "row P i = map (\<lambda>j. elem P i j) [0..<ncols P]"

text \<open>
  \<open>rand()\<close> is the C library's generator, reseeded from the clock at every call of an
  operator. The model takes the sequence of its results as an argument: \<open>rng p\<close> is the
  value of the \<open>p\<close>-th call of \<open>rand()\<close>, and every loop passes on the number of calls made
  so far. \<open>RAND_MAX\<close> is a constant of the C library (an \<open>int\<close>); it is a parameter \<open>RM\<close>
  of every definition, and a sequence of draws is one that stays within it.
\<close>

definition draws_ok :: "nat \<Rightarrow> (nat \<Rightarrow> nat) \<Rightarrow> bool" where
  "draws_ok RM rng \<longleftrightarrow> (\<forall>p. rng p \<le> RM)"

text \<open>Conversions of C: to \<open>unsigned int\<close>, and from \<open>unsigned int\<close> back to \<open>int\<close>.\<close>

definition to_uint :: "int \<Rightarrow> nat" where
  "to_uint i = nat (i mod 2 ^ 32)"

definition to_int :: "nat \<Rightarrow> int" where
  "to_int u = (if u mod 2 ^ 32 < 2 ^ 31 then int (u mod 2 ^ 32) else int (u mod 2 ^ 32) - 2 ^ 32)"

text \<open>
  \<^verbatim>\<open>int randr(unsigned int min, unsigned int max) {
     return min + rand() / (RAND_MAX / (max - min + 1) + 1); }\<close>
  All of it is \<open>unsigned int\<close> arithmetic, so \<open>max - min + 1\<close> wraps around; when it
  wraps to \<open>0\<close> the function divides by zero, which is the result \<open>None\<close>. The
  arguments \<open>lo\<close> and \<open>hi\<close> are the code's \<open>min\<close> and \<open>max\<close> (already converted to
  \<open>unsigned int\<close>, so below \<open>2 ^ 32\<close>), the last argument is the value \<open>rand()\<close> returns.
\<close>

definition randr :: "nat \<Rightarrow> nat \<Rightarrow> nat \<Rightarrow> nat \<Rightarrow> int option" where
  "randr RM lo hi r =
     (let span = (hi + 2 ^ 32 - lo + 1) mod 2 ^ 32 in
      if span = 0 then None
      else Some (to_int ((lo + r div (RM div span + 1)) mod 2 ^ 32)))"

section \<open>Bit-flip mutation\<close>

text \<open>
  \<^verbatim>\<open>RandNr = (double)rand() / RAND_MAX;
  if (RandNr < (*Pm)) { flip MutatedPopulation[individual + gene*m] }\<close>
  The quotient is taken in the reals. For the probabilities \<open>0\<close> and \<open>1\<close> the
  comparison of the doubles has the same outcome: the quotient of the doubles is not
  negative, and it is below \<open>1\<close> exactly when \<open>rand()\<close> is below \<open>RAND_MAX\<close>. For a
  probability in between, the rounded quotient can fall on the other side of \<open>Pm\<close>.
\<close>

definition flip :: "bool list \<Rightarrow> nat \<Rightarrow> bool list" where
  "flip buf i = (if buf ! i = True then buf[i := False] else buf[i := True])"

definition mutate_gene :: "nat \<Rightarrow> (nat \<Rightarrow> nat) \<Rightarrow> real \<Rightarrow> nat \<Rightarrow> nat \<Rightarrow> nat
    \<Rightarrow> bool list \<times> nat \<Rightarrow> bool list \<times> nat" where
  "mutate_gene RM rng Pm m gene individual s =
     (case s of (MutatedPopulation, p) \<Rightarrow>
        let RandNr = real (rng p) / real RM in
        (if RandNr < Pm then flip MutatedPopulation (individual + gene * m)
         else MutatedPopulation, p + 1))"

text \<open>
  \<^verbatim>\<open>for (individual = ElitismNo; individual < m; individual++)\<close> compares an \<open>int\<close>
  with a \<open>size_t\<close>: a negative \<open>ElitismNo\<close> converts to a value above every dimension
  and the loop body never runs.
\<close>

definition mutate_individuals :: "nat \<Rightarrow> (nat \<Rightarrow> nat) \<Rightarrow> real \<Rightarrow> nat \<Rightarrow> int \<Rightarrow> nat
    \<Rightarrow> bool list \<times> nat \<Rightarrow> bool list \<times> nat" where
  "mutate_individuals RM rng Pm m ElitismNo gene s =
     (if ElitismNo < 0 then s
      else fold (mutate_gene RM rng Pm m gene) [nat ElitismNo..<m] s)"

definition Mutate :: "nat \<Rightarrow> (nat \<Rightarrow> nat) \<Rightarrow> matrix \<Rightarrow> real \<Rightarrow> int \<Rightarrow> matrix" where
  "Mutate RM rng Population Pm ElitismNo =
     (let m = nrows Population; n = ncols Population;
          MutatedPopulation = cells Population
      in \<lparr>nrows = m, ncols = n,
          cells = fst (fold (mutate_individuals RM rng Pm m ElitismNo) [0..<n]
                        (MutatedPopulation, 0))\<rparr>)"

text \<open>
  \<open>draw_hits\<close> is the test \<open>RandNr < Pm\<close> on the draw number \<open>p\<close>, and \<open>draw_of\<close> the
  number of the draw that the loops make for the gene \<open>(i, j)\<close>. \<open>hit_in_gene\<close>: the
  linear index \<open>k\<close> is the cell of column \<open>gene\<close> in one of the rows \<open>a, \<dots>, b - 1\<close>, and
  the draw made for it, counted from \<open>p0\<close>, is a hit.
\<close>

definition draw_hits :: "nat \<Rightarrow> (nat \<Rightarrow> nat) \<Rightarrow> real \<Rightarrow> nat \<Rightarrow> bool" where
  "draw_hits RM rng Pm p \<longleftrightarrow> real (rng p) / real RM < Pm"

definition draw_of :: "nat \<Rightarrow> int \<Rightarrow> nat \<Rightarrow> nat \<Rightarrow> nat" where
  "draw_of m ElitismNo i j = j * (m - nat ElitismNo) + (i - nat ElitismNo)"

definition hit_in_gene :: "nat \<Rightarrow> (nat \<Rightarrow> nat) \<Rightarrow> real \<Rightarrow> nat \<Rightarrow> nat \<Rightarrow> nat \<Rightarrow> nat \<Rightarrow> nat \<Rightarrow> nat
    \<Rightarrow> bool" where
  "hit_in_gene RM rng Pm m gene p0 a b k \<longleftrightarrow>
     (\<exists>individual. a \<le> individual \<and> individual < b \<and> k = individual + gene * m \<and>
        draw_hits RM rng Pm (p0 + (individual - a)))"

section \<open>Faults of the machine and raised errors\<close>

text \<open>
  \<open>InvalidArgument\<close> is the error raised through \<open>mexErrMsgIdAndTxt\<close>, which does not
  return. The other three are executions that C leaves undefined: the division by zero in
  \<open>randr\<close>, the read of a variable that was never assigned, and the read of \<open>Fitness\<close>
  or \<open>Population\<close> in \<open>TourSel\<close> at an index outside of the array. A loop that never ends is
  the value \<open>None\<close>.
\<close>

datatype error = InvalidArgument | DivisionByZero | UninitialisedRead | OutOfBounds

section \<open>Tournament selection\<close>

text \<open>
  \<^verbatim>\<open>AlreadyInTour = false;
  for (row = 0; row < Contender; row++)
    if (ContenderIndex == ContenderList[row]) AlreadyInTour = true;\<close>
  The list holds the \<open>Contender\<close> entries written so far.
\<close>

definition AlreadyInTour :: "int \<Rightarrow> int list \<Rightarrow> bool" where
  "AlreadyInTour ContenderIndex ContenderList =
     fold (\<lambda>x found. if ContenderIndex = x then True else found) ContenderList False"

text \<open>
  The \<open>while (Contender < k)\<close> loop. \<open>Contender\<close> is the length of the two lists, \<open>p\<close> the
  number of calls of \<open>rand()\<close> so far. \<open>Fitness[ContenderIndex]\<close> is read when the
  contender is added to the list; \<open>Fitness\<close> has \<open>length Fitness\<close> entries.
\<close>

partial_function (option) pick_contenders ::
  "nat \<Rightarrow> (nat \<Rightarrow> nat) \<Rightarrow> int \<Rightarrow> int \<Rightarrow> nat \<Rightarrow> real list \<Rightarrow> int list \<Rightarrow> real list \<Rightarrow> nat
    \<Rightarrow> (error + int list \<times> real list \<times> nat) option" where
  "pick_contenders RM rng k Eliterows m Fitness ContenderList ContenderFitnessList p =
     (if int (length ContenderList) < k then
        (case randr RM (to_uint Eliterows) (to_uint (int m - 1)) (rng p) of
           None \<Rightarrow> Some (Inl DivisionByZero)
         | Some ContenderIndex \<Rightarrow>
             if AlreadyInTour ContenderIndex ContenderList
             then pick_contenders RM rng k Eliterows m Fitness
                    ContenderList ContenderFitnessList (p + 1)
             else if ContenderIndex < 0 \<or> int (length Fitness) \<le> ContenderIndex
             then Some (Inl OutOfBounds)
             else pick_contenders RM rng k Eliterows m Fitness
                    (ContenderList @ [ContenderIndex])
                    (ContenderFitnessList @ [Fitness ! nat ContenderIndex]) (p + 1))
      else Some (Inr (ContenderList, ContenderFitnessList, p)))"

declare pick_contenders.simps [code]

text \<open>
  One round of \<open>for (row = 0; row < k; row++)\<close>. \<open>Winner\<close> and \<open>WinnerIndex\<close> are
  declared without a value: \<open>None\<close> is the state before the first assignment.
\<close>

definition winner_step :: "real list \<Rightarrow> int list \<Rightarrow> nat \<Rightarrow> (real \<times> int) option
    \<Rightarrow> (real \<times> int) option" where
  "winner_step ContenderFitnessList ContenderList r w =
     (if r = 0 then Some (ContenderFitnessList ! r, ContenderList ! r)
      else (case w of
              None \<Rightarrow> None
            | Some (Winner, WinnerIndex) \<Rightarrow>
                if ContenderFitnessList ! r > Winner
                then Some (ContenderFitnessList ! r, ContenderList ! r)
                else Some (Winner, WinnerIndex)))"

definition find_winner :: "int \<Rightarrow> real list \<Rightarrow> int list \<Rightarrow> (real \<times> int) option
    \<Rightarrow> (real \<times> int) option" where
  "find_winner k ContenderFitnessList ContenderList w =
     fold (winner_step ContenderFitnessList ContenderList) [0..<nat k] w"

text \<open>
  \<^verbatim>\<open>Survivors[Tournament + NoSurvivors * col] = Population[WinnerIndex + m * col];\<close>
  One round of the copy loop, on the buffer \<open>Survivors\<close> or the fault of an earlier round.
  The read of \<open>Population\<close> is a fault when its index is outside of the matrix.
\<close>

definition copy_winner :: "matrix \<Rightarrow> nat \<Rightarrow> nat \<Rightarrow> int \<Rightarrow> nat \<Rightarrow> error + bool list
    \<Rightarrow> error + bool list" where
  "copy_winner Population NoSurvivors Tournament WinnerIndex col S =
     (case S of
        Inl e \<Rightarrow> Inl e
      | Inr Survivors \<Rightarrow>
          let idx = WinnerIndex + int (nrows Population) * int col in
          if idx < 0 \<or> int (length (cells Population)) \<le> idx then Inl OutOfBounds
          else Inr (Survivors[Tournament + NoSurvivors * col := cells Population ! nat idx]))"

text \<open>
  The state of \<open>TourSel\<close>: the two output buffers, the winner variables, and the number of
  calls of \<open>rand()\<close>. \<open>contenders\<close> is not a variable of the code: it keeps, for every
  tournament held, the \<open>ContenderList\<close> the draw loop ended with.
\<close>

record tour_state =
  Survivors :: "bool list"
  SurvivorFitness :: "real list"
  winner :: "(real \<times> int) option"
  draws_made :: nat
  contenders :: "int list list"

text \<open>The body of \<open>for (Tournament = 0; Tournament < NoSurvivors; Tournament++)\<close>.\<close>

definition tournament :: "nat \<Rightarrow> (nat \<Rightarrow> nat) \<Rightarrow> int \<Rightarrow> real list \<Rightarrow> matrix \<Rightarrow> nat \<Rightarrow> int
    \<Rightarrow> nat \<Rightarrow> tour_state \<Rightarrow> (error + tour_state) option" where
  "tournament RM rng k Fitness Population NoSurvivors Eliterows Tournament s =
     (case pick_contenders RM rng k Eliterows (nrows Population) Fitness [] [] (draws_made s) of
        None \<Rightarrow> None
      | Some (Inl e) \<Rightarrow> Some (Inl e)
      | Some (Inr (ContenderList, ContenderFitnessList, p)) \<Rightarrow>
          (case find_winner k ContenderFitnessList ContenderList (winner s) of
             None \<Rightarrow> Some (Inl UninitialisedRead)
           | Some (Winner, WinnerIndex) \<Rightarrow>
               (case fold (copy_winner Population NoSurvivors Tournament WinnerIndex)
                       [0..<ncols Population] (Inr (Survivors s)) of
                  Inl e \<Rightarrow> Some (Inl e)
                | Inr Survivors' \<Rightarrow>
                    Some (Inr (s\<lparr>SurvivorFitness := (SurvivorFitness s)[Tournament := Winner],
                                 Survivors := Survivors',
                                 winner := Some (Winner, WinnerIndex),
                                 draws_made := p,
                                 contenders := contenders s @ [ContenderList]\<rparr>)))))"

function tournaments :: "nat \<Rightarrow> (nat \<Rightarrow> nat) \<Rightarrow> int \<Rightarrow> real list \<Rightarrow> matrix \<Rightarrow> nat \<Rightarrow> int
    \<Rightarrow> nat \<Rightarrow> tour_state \<Rightarrow> (error + tour_state) option" where
  "tournaments RM rng k Fitness Population NoSurvivors Eliterows Tournament s =
     (if Tournament < NoSurvivors then
        (case tournament RM rng k Fitness Population NoSurvivors Eliterows Tournament s of
           None \<Rightarrow> None
         | Some (Inl e) \<Rightarrow> Some (Inl e)
         | Some (Inr s') \<Rightarrow>
             tournaments RM rng k Fitness Population NoSurvivors Eliterows (Tournament + 1) s')
      else Some (Inr s))"
  by pat_completeness auto
termination
  by (relation "measure (\<lambda>(RM, rng, k, Fitness, Population, NoSurvivors, Eliterows, Tournament, s).
        NoSurvivors - Tournament)") auto

text \<open>
  The gateway creates the two outputs (\<open>mxCreateLogicalMatrix\<close> and \<open>mxCreateDoubleMatrix\<close>
  fill them with zeros) and calls \<open>TourSel\<close>. The survivor count is a matrix dimension, a
  natural number.
\<close>

definition TourSel :: "nat \<Rightarrow> (nat \<Rightarrow> nat) \<Rightarrow> int \<Rightarrow> real list \<Rightarrow> matrix \<Rightarrow> nat \<Rightarrow> int
    \<Rightarrow> (error + tour_state) option" where
  "TourSel RM rng k Fitness Population NoSurvivors Eliterows =
     tournaments RM rng k Fitness Population NoSurvivors Eliterows 0
       \<lparr>Survivors = replicate (NoSurvivors * ncols Population) False,
        SurvivorFitness = replicate NoSurvivors 0,
        winner = None, draws_made = 0, contenders = []\<rparr>"


definition first_max :: "real list \<Rightarrow> nat \<Rightarrow> bool" where
  "first_max fs j \<longleftrightarrow>
     j < length fs \<and> (\<forall>i<length fs. fs ! i \<le> fs ! j) \<and> (\<forall>i<j. fs ! i < fs ! j)"

text \<open>
  The invariant of the tournament loop. \<open>winner_at \<dots> s t j\<close>: in the state \<open>s\<close>, the
  contender at position \<open>j\<close> of tournament \<open>t\<close> is its first contender of greatest
  fitness, and entry \<open>t\<close> of the two outputs holds its fitness and its genes.
  \<open>contenders_ok\<close>: a list of contenders without repetition and outside the elite rows.
\<close>

definition winner_at :: "real list \<Rightarrow> matrix \<Rightarrow> nat \<Rightarrow> tour_state \<Rightarrow> nat \<Rightarrow> nat \<Rightarrow> bool" where
  "winner_at Fitness Population NoSurvivors s t j \<longleftrightarrow>
     first_max (map (\<lambda>c. Fitness ! nat c) (contenders s ! t)) j \<and>
     SurvivorFitness s ! t = Fitness ! nat (contenders s ! t ! j) \<and>
     (\<forall>col<ncols Population.
        Survivors s ! (t + NoSurvivors * col) =
        cells Population ! (nat (contenders s ! t ! j) + nrows Population * col))"

definition tour_inv :: "int \<Rightarrow> real list \<Rightarrow> matrix \<Rightarrow> nat \<Rightarrow> nat \<Rightarrow> tour_state \<Rightarrow> bool" where
  "tour_inv k Fitness Population NoSurvivors T s \<longleftrightarrow>
     length (contenders s) = T \<and> length (SurvivorFitness s) = NoSurvivors \<and>
     length (Survivors s) = NoSurvivors * ncols Population \<and>
     (k \<le> 0 \<longrightarrow> winner s = None) \<and>
     (\<forall>t<T. length (contenders s ! t) = nat k \<and> (\<exists>j. winner_at Fitness Population NoSurvivors s t j))"

definition contenders_ok :: "int \<Rightarrow> nat \<Rightarrow> int list \<Rightarrow> bool" where
  "contenders_ok Eliterows m cs \<longleftrightarrow> distinct cs \<and> (\<forall>c\<in>set cs. Eliterows \<le> c \<and> c < int m)"

section \<open>N-point crossover\<close>

definition AlreadyChosen :: "int \<Rightarrow> int list \<Rightarrow> bool" where
  "AlreadyChosen CandidatePoint CrossOverPoints =
     fold (\<lambda>x found. if CandidatePoint = x then True else found) CrossOverPoints False"

text \<open>\<^verbatim>\<open>while (P1 == P2) { P2 = randr(0, m - 1); }\<close>\<close>

partial_function (option) pick_P2 ::
  "nat \<Rightarrow> (nat \<Rightarrow> nat) \<Rightarrow> nat \<Rightarrow> int \<Rightarrow> int \<Rightarrow> nat \<Rightarrow> (error + int \<times> nat) option" where
  "pick_P2 RM rng m P1 P2 p =
     (if P1 = P2 then
        (case randr RM 0 (to_uint (int m - 1)) (rng p) of
           None \<Rightarrow> Some (Inl DivisionByZero)
         | Some P2' \<Rightarrow> pick_P2 RM rng m P1 P2' (p + 1))
      else Some (Inr (P2, p)))"

declare pick_P2.simps [code]

text \<open>
  The \<open>while (i < N)\<close> loop that draws the cut points; \<open>i\<close> is the length of the list,
  the entries of the array written so far.
\<close>

partial_function (option) pick_points ::
  "nat \<Rightarrow> (nat \<Rightarrow> nat) \<Rightarrow> nat \<Rightarrow> int \<Rightarrow> int list \<Rightarrow> nat \<Rightarrow> (error + int list \<times> nat) option" where
  "pick_points RM rng n N CrossOverPoints p =
     (if int (length CrossOverPoints) < N then
        (case randr RM 0 (to_uint (int n - 1)) (rng p) of
           None \<Rightarrow> Some (Inl DivisionByZero)
         | Some CandidatePoint \<Rightarrow>
             if AlreadyChosen CandidatePoint CrossOverPoints
             then pick_points RM rng n N CrossOverPoints (p + 1)
             else pick_points RM rng n N (CrossOverPoints @ [CandidatePoint]) (p + 1))
      else Some (Inr (CrossOverPoints, p)))"

declare pick_points.simps [code]

text \<open>
  The state of the crossover loop: the output buffer \<open>Children\<close> (\<open>my * n\<close> cells) and
  the number of calls of \<open>rand()\<close>. The other three fields are not variables of the code,
  they record what it does: \<open>writes\<close> the row and the column of every store into
  \<open>Children\<close>, in order; \<open>reads\<close> the index \<open>e\<close> of every read of \<open>CrossOverPoints[e]\<close>;
  \<open>events\<close> the parents and the sorted cut points of every crossover event.
\<close>

record cross_state =
  Children :: "bool list"
  rand_calls :: nat
  writes :: "(nat \<times> nat) list"
  reads :: "nat list"
  events :: "(int \<times> int \<times> int list) list"

text \<open>
  \<^verbatim>\<open>Children[r + gene*my] = v;\<close> A store past the end of the buffer is undefined in C;
  here it leaves the buffer as it is (the list update does nothing there) and is
  recorded like every other store. The model goes on after such a store, and \<open>writes\<close>
  tells whether a run has stayed inside the buffer.
\<close>

definition store :: "nat \<Rightarrow> nat \<Rightarrow> nat \<Rightarrow> bool \<Rightarrow> cross_state \<Rightarrow> cross_state" where
  "store my r gene v s =
     s\<lparr>Children := (Children s)[r + gene * my := v], writes := writes s @ [(r, gene)]\<rparr>"

text \<open>
  \<open>CrossOverPoints\<close> has \<open>N\<close> entries. What a read at \<open>e \<ge> N\<close> returns is whatever the
  memory behind the array holds: \<open>beyond i\<close> stands for the \<open>int\<close> at
  \<open>CrossOverPoints[N + i]\<close>. The model goes on after such a read, and \<open>reads\<close> tells
  whether a run has stayed inside the array.
\<close>

definition read_point :: "int list \<Rightarrow> (nat \<Rightarrow> int) \<Rightarrow> nat \<Rightarrow> int" where
  "read_point CrossOverPoints beyond e =
     (if e < length CrossOverPoints then CrossOverPoints ! e
      else beyond (e - length CrossOverPoints))"

text \<open>The body of \<open>for (gene = 0; gene < n; gene++)\<close>, on the pair of \<open>e\<close> and the state.\<close>

definition cross_gene :: "matrix \<Rightarrow> nat \<Rightarrow> (nat \<Rightarrow> int) \<Rightarrow> int \<Rightarrow> int \<Rightarrow> int list \<Rightarrow> nat \<Rightarrow> nat
    \<Rightarrow> nat \<times> cross_state \<Rightarrow> nat \<times> cross_state" where
  "cross_gene Parentpool my beyond P1 P2 CrossOverPoints GeneratedChild gene es =
     (case es of (e0, s0) \<Rightarrow>
        let m = nrows Parentpool;
            s1 = s0\<lparr>reads := reads s0 @ [e0]\<rparr>;
            e = (if int gene > read_point CrossOverPoints beyond e0 then e0 + 1 else e0)
        in if e mod 2 = 0 then
             let s2 = store my GeneratedChild gene (cells Parentpool ! (nat P1 + gene * m)) s1
             in (e, if GeneratedChild < my
                    then store my (GeneratedChild + 1) gene (cells Parentpool ! (nat P2 + gene * m)) s2
                    else s2)
           else
             let s2 = store my GeneratedChild gene (cells Parentpool ! (nat P2 + gene * m)) s1
             in (e, if GeneratedChild < my
                    then store my (GeneratedChild + 1) gene (cells Parentpool ! (nat P1 + gene * m)) s2
                    else s2))"

text \<open>
  The body of \<open>while (GeneratedChild < my)\<close>: two parents, \<open>N\<close> cut points, \<open>qsort\<close>
  (the sorted list of the points), and the loop over the genes.
\<close>

definition crossover_event :: "nat \<Rightarrow> (nat \<Rightarrow> nat) \<Rightarrow> (nat \<Rightarrow> int) \<Rightarrow> matrix \<Rightarrow> int \<Rightarrow> nat \<Rightarrow> nat
    \<Rightarrow> cross_state \<Rightarrow> (error + cross_state) option" where
  "crossover_event RM rng beyond Parentpool N my GeneratedChild s =
     (let m = nrows Parentpool; n = ncols Parentpool; p = rand_calls s in
      case randr RM 0 (to_uint (int m - 1)) (rng p) of
        None \<Rightarrow> Some (Inl DivisionByZero)
      | Some P1 \<Rightarrow>
      (case randr RM 0 (to_uint (int m - 1)) (rng (p + 1)) of
        None \<Rightarrow> Some (Inl DivisionByZero)
      | Some P2' \<Rightarrow>
      (case pick_P2 RM rng m P1 P2' (p + 2) of
        None \<Rightarrow> None
      | Some (Inl e) \<Rightarrow> Some (Inl e)
      | Some (Inr (P2, p')) \<Rightarrow>
      (case pick_points RM rng n N [] p' of
        None \<Rightarrow> None
      | Some (Inl e) \<Rightarrow> Some (Inl e)
      | Some (Inr (points, p'')) \<Rightarrow>
          let CrossOverPoints = sort points;
              s' = snd (fold (cross_gene Parentpool my beyond P1 P2 CrossOverPoints GeneratedChild)
                          [0..<n] (0, s))
          in Some (Inr (s'\<lparr>rand_calls := p'',
                           events := events s' @ [(P1, P2, CrossOverPoints)]\<rparr>))))))"

function crossovers :: "nat \<Rightarrow> (nat \<Rightarrow> nat) \<Rightarrow> (nat \<Rightarrow> int) \<Rightarrow> matrix \<Rightarrow> int \<Rightarrow> nat \<Rightarrow> nat
    \<Rightarrow> cross_state \<Rightarrow> (error + cross_state) option" where
  "crossovers RM rng beyond Parentpool N my GeneratedChild s =
     (if GeneratedChild < my then
        (case crossover_event RM rng beyond Parentpool N my GeneratedChild s of
           None \<Rightarrow> None
         | Some (Inl e) \<Rightarrow> Some (Inl e)
         | Some (Inr s') \<Rightarrow> crossovers RM rng beyond Parentpool N my (GeneratedChild + 1) s')
      else Some (Inr s))"
  by pat_completeness auto
termination
  by (relation "measure (\<lambda>(RM, rng, beyond, Parentpool, N, my, GeneratedChild, s).
        my - GeneratedChild)") auto

text \<open>
  The gateway. \<open>N > n\<close> compares an \<open>int\<close> with a \<open>size_t\<close>, so a negative \<open>N\<close> converts
  to a value above every dimension and the first test holds for it. The output matrix is
  created (filled with zeros) before the tests. The number of children is a matrix
  dimension, a natural number.
\<close>

definition Crossover :: "nat \<Rightarrow> (nat \<Rightarrow> nat) \<Rightarrow> (nat \<Rightarrow> int) \<Rightarrow> matrix \<Rightarrow> int \<Rightarrow> nat
    \<Rightarrow> (error + cross_state) option" where
  "Crossover RM rng beyond Parentpool N my =
     (let n = ncols Parentpool;
          Children0 = replicate (my * n) False
      in if N < 0 \<or> int n < N then Some (Inl InvalidArgument)
         else if N \<le> 0 then Some (Inl InvalidArgument)
         else crossovers RM rng beyond Parentpool N my 0
                \<lparr>Children = Children0, rand_calls = 0, writes = [], reads = [], events = []\<rparr>)"

text \<open>
  The children as a matrix of \<open>my\<close> rows. \<open>points_ok\<close> and \<open>cut_points_ok\<close> say what
  the cut points of an event are before and after \<open>qsort\<close>: \<open>N\<close> columns of the parent
  pool, without repetition, and in ascending order once sorted.
\<close>

definition children_matrix :: "nat \<Rightarrow> matrix \<Rightarrow> cross_state \<Rightarrow> matrix" where
  "children_matrix my Parentpool s = \<lparr>nrows = my, ncols = ncols Parentpool, cells = Children s\<rparr>"

definition points_ok :: "nat \<Rightarrow> int list \<Rightarrow> bool" where
  "points_ok n cps \<longleftrightarrow> distinct cps \<and> (\<forall>c\<in>set cps. 0 \<le> c \<and> c < int n)"

definition cut_points_ok :: "int \<Rightarrow> nat \<Rightarrow> int list \<Rightarrow> bool" where
  "cut_points_ok N n cps \<longleftrightarrow>
     length cps = nat N \<and> distinct cps \<and> sorted_wrt (<) cps \<and> (\<forall>c\<in>set cps. 0 \<le> c \<and> c < int n)"

section \<open>Draw sequences on which the rejection loops end\<close>

text \<open>
  \<open>randr\<close> on a range of \<open>w\<close> values divides \<open>rand()\<close> by \<open>RAND_MAX div w + 1\<close>, so it
  can deliver \<open>reach RAND_MAX w\<close> different values (all \<open>w\<close> of them only when \<open>w\<close> is
  small against \<open>RAND_MAX\<close>). A sequence of draws is fair when every value that \<open>rand()\<close>
  can return comes again after every position.
\<close>

definition reach :: "nat \<Rightarrow> nat \<Rightarrow> nat" where
  "reach RM w = RM div (RM div w + 1) + 1"

definition fair_draws :: "nat \<Rightarrow> (nat \<Rightarrow> nat) \<Rightarrow> bool" where
  "fair_draws RM rng \<longleftrightarrow> (\<forall>v\<le>RM. \<forall>p. \<exists>q\<ge>p. rng q = v)"

section \<open>Concrete inputs\<close>

text \<open>
  The populations, fitness vectors and draw sequences at which the theorems below are
  instantiated. \<open>pop43\<close> is the population of the end-to-end example of the
  specification, rows \<open>101\<close>, \<open>010\<close>, \<open>111\<close>, \<open>000\<close>, with its fitness vector \<open>fit4\<close>.
  \<open>32767\<close> is the \<open>RAND_MAX\<close> of the Microsoft C library.
\<close>

definition pop43 :: matrix where
  "pop43 = \<lparr>nrows = 4, ncols = 3,
     cells = [True, False, True, False,  False, True, True, False,  True, False, True, False]\<rparr>"

definition fit4 :: "real list" where
  "fit4 = [1 / 10, 9 / 10, 5 / 10, 2 / 10]"

definition pop11 :: matrix where
  "pop11 = \<lparr>nrows = 1, ncols = 1, cells = [True]\<rparr>"

definition rng_steps :: "nat \<Rightarrow> nat" where
  "rng_steps p = (p * 7919 + 9000) mod 32767"

definition rng_max :: "nat \<Rightarrow> nat" where
  "rng_max p = 32767"

definition rng_odd_max :: "nat \<Rightarrow> nat" where
  "rng_odd_max p = (if p mod 2 = 1 then 32767 else 0)"

text \<open>
  \<open>pop43\<close> after the mutation with \<open>Pm = 1\<close> and \<open>ElitismNo = 2\<close> on the draws
  \<open>rng_odd_max\<close>, which are \<open>0\<close> for the genes of row \<open>2\<close> and \<open>RAND_MAX\<close> for the genes
  of row \<open>3\<close>: the rows are \<open>101\<close>, \<open>010\<close>, \<open>000\<close>, \<open>000\<close>.
\<close>

definition pop43_mutated :: matrix where
  "pop43_mutated = \<lparr>nrows = 4, ncols = 3,
     cells = [True, False, False, False,  False, True, False, False,  True, False, False, False]\<rparr>"



definition sel_run3 :: tour_state where
  "sel_run3 = \<lparr>Survivors = [False, False, True, True, True, True, False, False, True],
     SurvivorFitness = [9 / 10, 9 / 10, 1 / 2], winner = Some (1 / 2, 2), draws_made = 7,
     contenders = [[1, 2], [3, 1], [2, 3]]\<rparr>"




text \<open>
  A pool of three parents with two genes, rows \<open>10\<close>, \<open>00\<close>, \<open>11\<close>. With \<open>rng_pairs\<close> the
  first crossover event draws the parents \<open>0\<close> and \<open>1\<close>, the second the parents \<open>1\<close> and
  \<open>0\<close>, both with the cut point \<open>0\<close>; with \<open>rng_cut0\<close> on \<open>pop43\<close> an event draws the
  parents \<open>0\<close> and \<open>1\<close> and the cut point \<open>0\<close>. \<open>beyond_zero\<close> and \<open>beyond_big\<close> are two
  contents of the memory behind the array of cut points. The \<open>cross_\<close> states are the
  final states of the runs of \<open>Crossover\<close> named in the theorems.
\<close>

definition pool32 :: matrix where
  "pool32 = \<lparr>nrows = 3, ncols = 2, cells = [True, False, True,  False, False, True]\<rparr>"

definition rng_pairs :: "nat \<Rightarrow> nat" where
  "rng_pairs p = [0, 10923, 0, 10923, 0, 0] ! (p mod 6)"

definition rng_cut0 :: "nat \<Rightarrow> nat" where
  "rng_cut0 p = (if p mod 3 = 1 then 8192 else 0)"

definition beyond_zero :: "nat \<Rightarrow> int" where
  "beyond_zero i = 0"

definition beyond_big :: "nat \<Rightarrow> int" where
  "beyond_big i = 2147483647"

definition cross_run1 :: cross_state where
  "cross_run1 = \<lparr>Children = [True, False], rand_calls = 3,
     writes = [(0, 0), (1, 0), (0, 1), (1, 1)], reads = [0, 0], events = [(0, 1, [0])]\<rparr>"

definition cross_run2 :: cross_state where
  "cross_run2 = \<lparr>Children = [True, False, True, False], rand_calls = 6,
     writes = [(0, 0), (1, 0), (0, 1), (1, 1), (1, 0), (2, 0), (1, 1), (2, 1)],
     reads = [0, 0, 0, 0], events = [(0, 1, [0]), (1, 0, [0])]\<rparr>"

definition cross_run3 :: cross_state where
  "cross_run3 = \<lparr>Children = [False, False, False, True, True, True, True, True, True],
     rand_calls = 13,
     writes = [(0, 0), (1, 0), (0, 1), (1, 1), (0, 2), (1, 2), (1, 0), (2, 0),
               (1, 1), (2, 1), (1, 2), (2, 2), (2, 0), (3, 0), (2, 1), (3, 1), (2, 2), (3, 2)],
     reads = [0, 0, 1, 0, 0, 1, 0, 0, 1],
     events = [(1, 2, [0, 2]), (1, 2, [0, 2]), (1, 2, [0, 2])]\<rparr>"

definition cross_read_zero :: cross_state where
  "cross_read_zero = \<lparr>Children = [True, True, True], rand_calls = 3,
     writes = [(0, 0), (1, 0), (0, 1), (1, 1), (0, 2), (1, 2)],
     reads = [0, 0, 1], events = [(0, 1, [0])]\<rparr>"

definition cross_read_big :: cross_state where
  "cross_read_big = \<lparr>Children = [True, True, False], rand_calls = 3,
     writes = [(0, 0), (1, 0), (0, 1), (1, 1), (0, 2), (1, 2)],
     reads = [0, 0, 1], events = [(0, 1, [0])]\<rparr>"

text \<open>
  A pool with a single parent, and a fair sequence of draws: \<open>0, 1, \<dots>, 32767\<close> again
  and again.
\<close>

definition pool12 :: matrix where
  "pool12 = \<lparr>nrows = 1, ncols = 2, cells = [True, False]\<rparr>"

definition rng_cycle :: "nat \<Rightarrow> nat" where
  "rng_cycle p = p mod 32768"

text \<open>A population of \<open>250\<close> individuals with one gene, and their fitness values.\<close>

definition pop250 :: matrix where
  "pop250 = \<lparr>nrows = 250, ncols = 1, cells = replicate 250 False\<rparr>"

definition fit250 :: "real list" where
  "fit250 = replicate 250 0"

section \<open>Properties of the mutation operator\<close>

lemma flip_length: "length (flip buf i) = length buf"
  by (simp add: flip_def)

lemma flip_other: "k \<noteq> i \<Longrightarrow> flip buf i ! k = buf ! k"
  by (simp add: flip_def)

lemma flip_same: "i < length buf \<Longrightarrow> flip buf i ! i = (\<not> buf ! i)"
  by (simp add: flip_def)

lemma mutate_gene_length:
  "length (fst (mutate_gene RM rng Pm m gene individual s)) = length (fst s)"
  by (cases s) (simp add: mutate_gene_def flip_length Let_def)

lemma mutate_gene_other:
  "k \<noteq> individual + gene * m \<Longrightarrow>
   fst (mutate_gene RM rng Pm m gene individual s) ! k = fst s ! k"
  by (cases s) (simp add: mutate_gene_def flip_other Let_def)

lemma fold_mutate_gene_other:
  "\<forall>individual \<in> set inds. k \<noteq> individual + gene * m \<Longrightarrow>
   fst (fold (mutate_gene RM rng Pm m gene) inds s) ! k = fst s ! k"
  by (induction inds arbitrary: s) (simp_all add: mutate_gene_other)

lemma fold_mutate_gene_length:
  "length (fst (fold (mutate_gene RM rng Pm m gene) inds s)) = length (fst s)"
  by (induction inds arbitrary: s) (simp_all add: mutate_gene_length)

text \<open>In a column-major buffer a linear index determines its row and its column.\<close>

lemma cell_index_inj:
  fixes m :: nat
  assumes "i < m" "i' < m" "i + j * m = i' + j' * m"
  shows "i = i' \<and> j = j'"
proof -
  have "(i + j * m) mod m = (i' + j' * m) mod m" "(i + j * m) div m = (i' + j' * m) div m"
    by (simp_all only: assms(3))
  then show ?thesis using assms(1,2) by simp
qed

lemma mutate_individuals_other:
  assumes "i < m" "int i < ElitismNo"
  shows "fst (mutate_individuals RM rng Pm m ElitismNo gene s) ! (i + j * m) = fst s ! (i + j * m)"
proof -
  have "\<forall>individual \<in> set [nat ElitismNo..<m]. i + j * m \<noteq> individual + gene * m"
  proof
    fix individual assume "individual \<in> set [nat ElitismNo..<m]"
    then have "individual < m" "i \<noteq> individual" using assms by auto
    then show "i + j * m \<noteq> individual + gene * m"
      using cell_index_inj [OF assms(1), of individual j gene] by blast
  qed
  then show ?thesis
    by (simp add: mutate_individuals_def fold_mutate_gene_other)
qed

lemma fold_mutate_individuals_other:
  assumes "i < m" "int i < ElitismNo"
  shows "fst (fold (mutate_individuals RM rng Pm m ElitismNo) genes s) ! (i + j * m) =
         fst s ! (i + j * m)"
  using assms by (induction genes arbitrary: s) (simp_all add: mutate_individuals_other)

text \<open>
  Claim C4. Every elite row comes out of \<open>Mutate\<close> as it went in: for every population, every mutation probability, every elitism count and every
  sequence of draws, row \<open>i\<close> of the output with \<open>i < ElitismNo\<close> is row \<open>i\<close> of the
  input, bit for bit.
\<close>

theorem Mutate_elite_rows_unchanged:
  assumes "i < nrows Population" "int i < ElitismNo"
  shows "row (Mutate RM rng Population Pm ElitismNo) i = row Population i"
  using assms by (simp add: row_def elem_def Mutate_def Let_def fold_mutate_individuals_other)

theorem Mutate_elite_rows_unchanged_witness:
  "(1::nat) < nrows pop43 \<and> int 1 < 2 \<and>
   row (Mutate 32767 rng_steps pop43 (1 / 2) 2) 1 = row pop43 1 \<and>
   Mutate 32767 rng_steps pop43 (1 / 2) 2 \<noteq> pop43"
proof -
  have h: "(1::nat) < nrows pop43" "int 1 < 2" by (simp_all add: pop43_def)
  have changed: "Mutate 32767 rng_steps pop43 (1 / 2) 2 \<noteq> pop43"
    by (simp add: pop43_def Mutate_def mutate_individuals_def mutate_gene_def rng_steps_def
        flip_def upt_rec)
  show ?thesis
    using h changed Mutate_elite_rows_unchanged [OF h, of 32767 rng_steps "1 / 2"] by simp
qed

lemma mutate_gene_Pm0: "mutate_gene RM rng 0 m gene individual (buf, p) = (buf, p + 1)"
  by (simp add: mutate_gene_def Let_def divide_less_0_iff)

lemma fold_mutate_gene_Pm0: "fst (fold (mutate_gene RM rng 0 m gene) inds s) = fst s"
  by (induction inds arbitrary: s) (auto simp: mutate_gene_Pm0)

lemma fold_mutate_individuals_Pm0:
  "fst (fold (mutate_individuals RM rng 0 m ElitismNo) genes s) = fst s"
  by (induction genes arbitrary: s) (simp_all add: mutate_individuals_def fold_mutate_gene_Pm0)

lemma Mutate_zero_probability: "Mutate RM rng Population 0 ElitismNo = Population"
  by (simp add: Mutate_def Let_def fold_mutate_individuals_Pm0)

lemma mutate_individuals_length:
  "length (fst (mutate_individuals RM rng Pm m ElitismNo gene s)) = length (fst s)"
  by (simp add: mutate_individuals_def fold_mutate_gene_length)

lemma fold_mutate_individuals_length:
  "length (fst (fold (mutate_individuals RM rng Pm m ElitismNo) genes s)) = length (fst s)"
  by (induction genes arbitrary: s) (simp_all add: mutate_individuals_length)

text \<open>
  What \<open>Mutate\<close> does to a gene of a row that is not elite: the gene is flipped when
  the draw made for it is a hit (the test \<open>RandNr < Pm\<close> on the quotient in the reals),
  and kept otherwise.
\<close>

lemma mutate_gene_draw:
  "mutate_gene RM rng Pm m gene individual (buf, p) =
     (if draw_hits RM rng Pm p then flip buf (individual + gene * m) else buf, p + 1)"
  by (simp add: mutate_gene_def draw_hits_def Let_def)

lemma fold_mutate_gene_draws:
  "snd (fold (mutate_gene RM rng Pm m gene) [a..<b] s) = snd s + (b - a)"
proof (induction b)
  case 0
  show ?case by simp
next
  case (Suc b)
  show ?case
  proof (cases "a \<le> b")
    case False
    then show ?thesis by simp
  next
    case True
    obtain buf p where st: "fold (mutate_gene RM rng Pm m gene) [a..<b] s = (buf, p)"
      by (cases "fold (mutate_gene RM rng Pm m gene) [a..<b] s")
    then show ?thesis using Suc True by (simp add: mutate_gene_draw Suc_diff_le)
  qed
qed

lemma hit_in_gene_Suc:
  assumes "a \<le> b"
  shows "hit_in_gene RM rng Pm m gene p0 a (Suc b) k \<longleftrightarrow>
         hit_in_gene RM rng Pm m gene p0 a b k \<or>
         (k = b + gene * m \<and> draw_hits RM rng Pm (p0 + (b - a)))"
  unfolding hit_in_gene_def using assms by (auto simp: less_Suc_eq)

lemma hit_in_gene_fresh: "hit_in_gene RM rng Pm m gene p0 a b k \<Longrightarrow> k \<noteq> b + gene * m"
  unfolding hit_in_gene_def by auto

lemma hit_in_gene_empty: "b \<le> a \<Longrightarrow> \<not> hit_in_gene RM rng Pm m gene p0 a b k"
  unfolding hit_in_gene_def by auto

lemma fold_mutate_gene_nth:
  assumes "k < length (fst s)"
  shows "fst (fold (mutate_gene RM rng Pm m gene) [a..<b] s) ! k =
         (if hit_in_gene RM rng Pm m gene (snd s) a b k then \<not> fst s ! k else fst s ! k)"
proof (induction b)
  case 0
  show ?case by (simp add: hit_in_gene_empty)
next
  case (Suc b)
  show ?case
  proof (cases "a \<le> b")
    case False
    then show ?thesis by (simp add: hit_in_gene_empty)
  next
    case True
    obtain buf p where st: "fold (mutate_gene RM rng Pm m gene) [a..<b] s = (buf, p)"
      by (cases "fold (mutate_gene RM rng Pm m gene) [a..<b] s")
    have p: "p = snd s + (b - a)"
      using fold_mutate_gene_draws [of RM rng Pm m gene a b s] st by simp
    have len: "length buf = length (fst s)"
      using fold_mutate_gene_length [of RM rng Pm m gene "[a..<b]" s] st by simp
    have prev: "buf ! k =
        (if hit_in_gene RM rng Pm m gene (snd s) a b k then \<not> fst s ! k else fst s ! k)"
      using Suc st by simp
    have step: "fst (fold (mutate_gene RM rng Pm m gene) [a..<Suc b] s) =
        (if draw_hits RM rng Pm p then flip buf (b + gene * m) else buf)"
      using True st by (simp add: mutate_gene_draw)
    note sp = hit_in_gene_Suc [OF True, of RM rng Pm m gene "snd s" k]
    show ?thesis
    proof (cases "k = b + gene * m")
      case here: True
      then have "\<not> hit_in_gene RM rng Pm m gene (snd s) a b k"
        using hit_in_gene_fresh by blast
      then show ?thesis
        unfolding step sp using here prev assms len p by (simp add: flip_same)
    next
      case other: False
      then show ?thesis
        unfolding step sp using prev by (simp add: flip_other)
    qed
  qed
qed

lemma fold_mutate_individuals_draws:
  assumes "0 \<le> ElitismNo"
  shows "snd (fold (mutate_individuals RM rng Pm m ElitismNo) [0..<g] s) =
         snd s + g * (m - nat ElitismNo)"
  using assms by (induction g) (simp_all add: mutate_individuals_def fold_mutate_gene_draws)

lemma fold_mutate_individuals_nth:
  assumes "0 \<le> ElitismNo" "k < length (fst s)"
  shows "fst (fold (mutate_individuals RM rng Pm m ElitismNo) [0..<g] s) ! k =
         (if \<exists>gene<g. hit_in_gene RM rng Pm m gene (snd s + gene * (m - nat ElitismNo))
                          (nat ElitismNo) m k
          then \<not> fst s ! k else fst s ! k)"
proof (induction g)
  case 0
  show ?case by simp
next
  case (Suc g)
  let ?t = "fold (mutate_individuals RM rng Pm m ElitismNo) [0..<g] s"
  let ?hit = "\<lambda>gene. hit_in_gene RM rng Pm m gene (snd s + gene * (m - nat ElitismNo))
      (nat ElitismNo) m k"
  have len: "k < length (fst ?t)"
    using assms(2) by (simp add: fold_mutate_individuals_length)
  have pos: "snd ?t = snd s + g * (m - nat ElitismNo)"
    using fold_mutate_individuals_draws [OF assms(1)] .
  have "fold (mutate_individuals RM rng Pm m ElitismNo) [0..<Suc g] s =
      fold (mutate_gene RM rng Pm m g) [nat ElitismNo..<m] ?t"
    using assms(1) by (simp add: mutate_individuals_def)
  then have step: "fst (fold (mutate_individuals RM rng Pm m ElitismNo) [0..<Suc g] s) ! k =
      (if ?hit g then \<not> fst ?t ! k else fst ?t ! k)"
    using fold_mutate_gene_nth [OF len, of RM rng Pm m g "nat ElitismNo" m]
    by (simp only: pos)
  have fresh: "\<not> (\<exists>gene<g. ?hit gene)" if "?hit g"
  proof
    assume "\<exists>gene<g. ?hit gene"
    with that obtain i i' gene where "i < m" "i' < m" "gene < g" "i + g * m = i' + gene * m"
      unfolding hit_in_gene_def by metis
    then show False using cell_index_inj [of i m i' g gene] by simp
  qed
  have split: "(\<exists>gene<Suc g. ?hit gene) \<longleftrightarrow> (\<exists>gene<g. ?hit gene) \<or> ?hit g"
    by (auto simp: less_Suc_eq)
  show ?case
  proof (cases "?hit g")
    case True
    with fresh have "\<not> (\<exists>gene<g. ?hit gene)" by blast
    then have "fst ?t ! k = fst s ! k" using Suc by (simp only: if_False)
    then show ?thesis unfolding split step using True by (simp only: if_True simp_thms)
  next
    case False
    then show ?thesis unfolding split step Suc by (simp only: if_False simp_thms)
  qed
qed

lemma Mutate_gene_flipped:
  assumes "wf_matrix Population" "0 \<le> ElitismNo"
    and "ElitismNo \<le> int i" "i < nrows Population" "j < ncols Population"
  shows "elem (Mutate RM rng Population Pm ElitismNo) i j =
         (if draw_hits RM rng Pm (draw_of (nrows Population) ElitismNo i j)
          then \<not> elem Population i j else elem Population i j)"
proof -
  let ?m = "nrows Population"
  let ?hit = "\<lambda>gene. hit_in_gene RM rng Pm ?m gene (gene * (?m - nat ElitismNo))
      (nat ElitismNo) ?m (i + j * ?m)"
  have "i + j * ?m < ?m * Suc j" using assms(4) by simp
  also have "\<dots> \<le> ?m * ncols Population"
    using assms(5) by (simp add: Suc_leI del: mult_Suc_right)
  finally have k: "i + j * ?m < length (fst (cells Population, 0::nat))"
    using assms(1) by (simp add: wf_matrix_def)
  have "(\<exists>gene<ncols Population. ?hit gene) \<longleftrightarrow>
        draw_hits RM rng Pm (draw_of ?m ElitismNo i j)"
  proof
    assume "\<exists>gene<ncols Population. ?hit gene"
    then obtain gene individual where h: "individual < ?m"
      "i + j * ?m = individual + gene * ?m"
      "draw_hits RM rng Pm (gene * (?m - nat ElitismNo) + (individual - nat ElitismNo))"
      unfolding hit_in_gene_def by blast
    from cell_index_inj [OF assms(4) h(1,2)] h(3)
    show "draw_hits RM rng Pm (draw_of ?m ElitismNo i j)" by (simp add: draw_of_def)
  next
    assume "draw_hits RM rng Pm (draw_of ?m ElitismNo i j)"
    then have "?hit j"
      unfolding hit_in_gene_def draw_of_def using assms(2,3,4)
      by (intro exI [of _ i]) simp
    then show "\<exists>gene<ncols Population. ?hit gene" using assms(5) by blast
  qed
  then show ?thesis
    using fold_mutate_individuals_nth [OF assms(2) k, of RM rng Pm ?m "ncols Population"]
    by (simp add: elem_def Mutate_def Let_def)
qed

lemma draw_hits_unit_probability:
  "0 < RM \<Longrightarrow> rng p \<le> RM \<Longrightarrow> draw_hits RM rng 1 p \<longleftrightarrow> rng p \<noteq> RM"
  by (auto simp: draw_hits_def)

text \<open>
  With \<open>Pm = 1\<close> a draw is a hit unless it is \<open>RAND_MAX\<close>: on a well-formed population
  with a non-negative elitism count and draws that \<open>rand()\<close> can return, \<open>Mutate\<close> flips
  the gene \<open>(i, j)\<close> of a row \<open>i \<ge> ElitismNo\<close> unless the draw made for that gene is
  \<open>RAND_MAX\<close>. When \<open>rand()\<close> stays below \<open>RAND_MAX\<close>, every such gene is flipped.
\<close>

lemma Mutate_unit_probability:
  assumes "wf_matrix Population" "0 < RM" "draws_ok RM rng" "0 \<le> ElitismNo"
    and "ElitismNo \<le> int i" "i < nrows Population" "j < ncols Population"
  shows "elem (Mutate RM rng Population 1 ElitismNo) i j =
          (if rng (draw_of (nrows Population) ElitismNo i j) = RM
           then elem Population i j else \<not> elem Population i j)"
proof -
  let ?p = "draw_of (nrows Population) ElitismNo i j"
  have "rng ?p \<le> RM" using assms(3) by (simp add: draws_ok_def)
  from draw_hits_unit_probability [where rng = rng and p = ?p, OF assms(2) this]
    Mutate_gene_flipped [OF assms(1,4,5,6,7), of RM rng 1]
  show ?thesis by simp
qed

lemma Mutate_below_RAND_MAX:
  assumes "wf_matrix Population" "\<forall>p. rng p < RM" "0 \<le> ElitismNo"
    and "ElitismNo \<le> int i" "i < nrows Population" "j < ncols Population"
  shows "elem (Mutate RM rng Population 1 ElitismNo) i j = (\<not> elem Population i j)"
proof -
  have "0 < RM" using assms(2) [rule_format, of 0] by simp
  moreover have "draws_ok RM rng" using assms(2) by (simp add: draws_ok_def less_imp_le)
  moreover have "rng (draw_of (nrows Population) ElitismNo i j) \<noteq> RM"
    using assms(2) [rule_format, of "draw_of (nrows Population) ElitismNo i j"] by simp
  ultimately show ?thesis
    using Mutate_unit_probability [OF assms(1) _ _ assms(3,4,5,6), of RM rng] by simp
qed

text \<open>
  Claim C5, at failing inputs. \<open>RandNr\<close> is \<open>rand() / RAND_MAX\<close>, which is \<open>1\<close> when
  \<open>rand()\<close> returns \<open>RAND_MAX\<close>, and \<open>RandNr < Pm\<close> is false then for \<open>Pm = 1\<close>: the
  gene of that draw is not flipped. On the population of the end-to-end example with
  \<open>Pm = 1\<close>, \<open>ElitismNo = 2\<close> and the draws \<open>0, RAND_MAX, 0, RAND_MAX, \<dots>\<close> the genes of
  row \<open>2\<close> are flipped (\<open>111\<close> becomes \<open>000\<close>) and the genes of row \<open>3\<close> are not
  (\<open>000\<close> stays \<open>000\<close>); with every draw equal to \<open>RAND_MAX\<close>, a population of one
  individual with one gene and no elite row comes out as it went in.
\<close>

theorem Mutate_Pm1_gene_not_flipped:
  "draws_ok 32767 rng_odd_max \<and> draws_ok 32767 rng_max \<and>
   row pop43 2 = [True, True, True] \<and> row pop43 3 = [False, False, False] \<and>
   Mutate 32767 rng_odd_max pop43 1 2 = pop43_mutated \<and>
   row (Mutate 32767 rng_odd_max pop43 1 2) 2 = [False, False, False] \<and>
   row (Mutate 32767 rng_odd_max pop43 1 2) 3 = [False, False, False] \<and>
   Mutate 32767 rng_max pop11 1 0 = pop11"
proof -
  have ok: "draws_ok 32767 rng_odd_max" "draws_ok 32767 rng_max"
    by (simp_all add: draws_ok_def rng_odd_max_def rng_max_def)
  have run: "Mutate 32767 rng_odd_max pop43 1 2 = pop43_mutated" by code_simp
  have rows: "row pop43 2 = [True, True, True]" "row pop43 3 = [False, False, False]"
    "row pop43_mutated 2 = [False, False, False]" "row pop43_mutated 3 = [False, False, False]"
    by (simp_all add: row_def elem_def pop43_def pop43_mutated_def upt_rec)
  have one: "Mutate 32767 rng_max pop11 1 0 = pop11"
    by (simp add: Mutate_def mutate_individuals_def mutate_gene_def rng_max_def pop11_def)
  show ?thesis using ok run rows one by simp
qed

section \<open>Properties of the bounded random integer\<close>

lemma to_uint_nat: "0 \<le> i \<Longrightarrow> i < 2 ^ 32 \<Longrightarrow> to_uint i = nat i"
  by (simp add: to_uint_def)

lemma to_uint_pred: "0 < m \<Longrightarrow> m < 2 ^ 32 \<Longrightarrow> to_uint (int m - 1) = m - 1"
  by (simp add: to_uint_def nat_diff_distrib)

lemma randr_quot:
  assumes "0 < w" "r \<le> RM"
  shows "r div (RM div w + 1) < (w::nat)"
proof -
  have "RM < w * (RM div w + 1)"
    using assms(1) by (simp add: dividend_less_times_div)
  then have "r < w * (RM div w + 1)" using assms(2) by simp
  then show ?thesis by (simp add: div_less_iff_less_mult)
qed

text \<open>
  Without wrap-around (\<open>lo \<le> hi\<close>, both within the range of \<open>int\<close>) and on a value that
  \<open>rand()\<close> can return, \<open>randr\<close> returns \<open>lo + r div (RAND_MAX div (hi - lo + 1) + 1)\<close>,
  a value between \<open>lo\<close> and \<open>hi\<close>.
\<close>

lemma randr_value:
  assumes "lo \<le> hi" "hi < 2 ^ 31" "r \<le> RM"
  shows "randr RM lo hi r = Some (int (lo + r div (RM div (hi - lo + 1) + 1)))"
    and "lo + r div (RM div (hi - lo + 1) + 1) \<le> hi"
proof -
  have sp: "(hi + 2 ^ 32 - lo + 1) mod 2 ^ 32 = hi - lo + 1"
  proof -
    have "hi + 2 ^ 32 - lo + 1 = (hi - lo + 1) + 2 ^ 32" using assms(1) by simp
    moreover have "hi - lo + 1 < 2 ^ 32" using assms(2) by simp
    ultimately show ?thesis by (simp only: mod_add_self2 mod_less)
  qed
  have q: "r div (RM div (hi - lo + 1) + 1) < hi - lo + 1"
    using assms(3) by (intro randr_quot) simp_all
  then show le: "lo + r div (RM div (hi - lo + 1) + 1) \<le> hi" using assms(1) by simp
  then have small: "lo + r div (RM div (hi - lo + 1) + 1) < 2 ^ 31" using assms(2) by simp
  let ?c = "lo + r div (RM div (hi - lo + 1) + 1)"
  have md: "?c mod 2 ^ 32 = ?c" using small by simp
  have ti: "to_int ?c = int ?c"
    unfolding to_int_def md using small by simp
  have "randr RM lo hi r = Some (to_int (?c mod 2 ^ 32))"
    unfolding randr_def sp Let_def by simp
  then show "randr RM lo hi r = Some (int ?c)"
    unfolding md ti .
qed

lemma randr_range:
  assumes "lo \<le> hi" "hi < 2 ^ 31" "r \<le> RM"
  shows "\<exists>c. randr RM lo hi r = Some c \<and> int lo \<le> c \<and> c \<le> int hi"
  using randr_value [OF assms] by simp

lemma fold_found_iff:
  "fold (\<lambda>x found. if c = x then True else found) xs b \<longleftrightarrow> b \<or> c \<in> set xs"
  by (induction xs arbitrary: b) auto

section \<open>Properties of tournament selection\<close>

lemma AlreadyInTour_iff: "AlreadyInTour c xs \<longleftrightarrow> c \<in> set xs"
  by (simp add: AlreadyInTour_def fold_found_iff)

text \<open>
  What the draw loop returns, if it returns: the list of fitness values is the fitness
  of the contenders, entry by entry, there are \<open>k\<close> of them, and every contender is an
  index of \<open>Fitness\<close>.
\<close>

lemma pick_contenders_shape:
  assumes "pick_contenders RM rng k Eliterows m Fitness CL CFL p = Some y"
  shows "CFL = map (\<lambda>c. Fitness ! nat c) CL \<Longrightarrow> int (length CL) \<le> max k 0 \<Longrightarrow>
         (\<forall>c\<in>set CL. 0 \<le> c \<and> c < int (length Fitness)) \<Longrightarrow>
         (case y of Inl e \<Rightarrow> e = DivisionByZero \<or> e = OutOfBounds
          | Inr (CL', CFL', p') \<Rightarrow> CFL' = map (\<lambda>c. Fitness ! nat c) CL' \<and> length CL' = nat k \<and>
              (\<forall>c\<in>set CL'. 0 \<le> c \<and> c < int (length Fitness)))"
  using assms
proof (induction rule: pick_contenders.raw_induct [rotated 1, consumes 1])
  case (1 pick RM rng k Eliterows m Fitness CL CFL p y)
  show ?case
  proof (cases "int (length CL) < k")
    case False
    with 1 show ?thesis by (auto split: if_splits)
  next
    case True
    show ?thesis
    proof (cases "randr RM (to_uint Eliterows) (to_uint (int m - 1)) (rng p)")
      case None
      with 1 True show ?thesis by auto
    next
      case (Some c)
      show ?thesis
      proof (cases "AlreadyInTour c CL")
        case True
        with 1 Some \<open>int (length CL) < k\<close> show ?thesis by auto
      next
        case False
        show ?thesis
        proof (cases "c < 0 \<or> int (length Fitness) \<le> c")
          case out: True
          with 1(2) Some True False have "y = Inl OutOfBounds" by auto
          then show ?thesis by simp
        next
          case inside: False
          with 1(2) Some True False
          have run: "pick RM rng k Eliterows m Fitness (CL @ [c]) (CFL @ [Fitness ! nat c]) (p + 1)
              = Some y"
            by simp
          show ?thesis
            by (rule "1.IH" [OF run]) (use 1 True inside in auto)
        qed
      qed
    qed
  qed
qed

lemma pick_contenders_range:
  assumes "pick_contenders RM rng k Eliterows m Fitness CL CFL p = Some y"
  shows "draws_ok RM rng \<Longrightarrow> 0 \<le> Eliterows \<Longrightarrow> Eliterows < int m \<Longrightarrow> m < 2 ^ 31 \<Longrightarrow>
         distinct CL \<Longrightarrow> (\<forall>c\<in>set CL. Eliterows \<le> c \<and> c < int m) \<Longrightarrow>
         (case y of Inl e \<Rightarrow> length Fitness < m
          | Inr (CL', CFL', p') \<Rightarrow> distinct CL' \<and> (\<forall>c\<in>set CL'. Eliterows \<le> c \<and> c < int m))"
  using assms
proof (induction rule: pick_contenders.raw_induct [rotated 1, consumes 1])
  case (1 pick RM rng k Eliterows m Fitness CL CFL p y)
  show ?case
  proof (cases "int (length CL) < k")
    case False
    with 1 show ?thesis by (auto split: if_splits)
  next
    case True
    have lo: "to_uint Eliterows = nat Eliterows" using 1 by (intro to_uint_nat) auto
    have hi: "to_uint (int m - 1) = m - 1" using 1 by (intro to_uint_pred) auto
    have "\<exists>c. randr RM (nat Eliterows) (m - 1) (rng p) = Some c \<and>
        int (nat Eliterows) \<le> c \<and> c \<le> int (m - 1)"
      using 1 by (intro randr_range) (auto simp: draws_ok_def)
    then obtain c where c: "randr RM (to_uint Eliterows) (to_uint (int m - 1)) (rng p) = Some c"
      "Eliterows \<le> c" "c < int m"
      using 1 lo hi by auto
    show ?thesis
    proof (cases "AlreadyInTour c CL")
      case True
      with 1 c \<open>int (length CL) < k\<close> show ?thesis by auto
    next
      case False
      show ?thesis
      proof (cases "c < 0 \<or> int (length Fitness) \<le> c")
        case out: True
        with 1(2) c(1) True False have "y = Inl OutOfBounds" by auto
        moreover have "length Fitness < m" using out c(2,3) 1(4) by auto
        ultimately show ?thesis by simp
      next
        case inside: False
        with 1(2) c True False
        have run: "pick RM rng k Eliterows m Fitness (CL @ [c]) (CFL @ [Fitness ! nat c]) (p + 1)
            = Some y"
          by simp
        show ?thesis
          by (rule "1.IH" [OF run]) (use 1 c False in \<open>auto simp: AlreadyInTour_iff\<close>)
      qed
    qed
  qed
qed

text \<open>
  The winner loop over \<open>r\<close> rows ends with the first contender of greatest fitness,
  whatever \<open>Winner\<close> held before.
\<close>

lemma find_winner_prefix:
  assumes "0 < r"
  shows "\<exists>j<r. fold (winner_step CFL CL) [0..<r] w = Some (CFL ! j, CL ! j) \<and>
           (\<forall>i<r. CFL ! i \<le> CFL ! j) \<and> (\<forall>i<j. CFL ! i < CFL ! j)"
  using assms
proof (induction r)
  case 0
  then show ?case by simp
next
  case (Suc r)
  show ?case
  proof (cases "r = 0")
    case True
    then show ?thesis by (simp add: winner_step_def)
  next
    case False
    with Suc obtain j where j: "j < r"
      "fold (winner_step CFL CL) [0..<r] w = Some (CFL ! j, CL ! j)"
      "\<forall>i<r. CFL ! i \<le> CFL ! j" "\<forall>i<j. CFL ! i < CFL ! j"
      by auto
    show ?thesis
    proof (cases "CFL ! r > CFL ! j")
      case True
      have "fold (winner_step CFL CL) [0..<Suc r] w = Some (CFL ! r, CL ! r)"
        using j(2) False True by (simp add: winner_step_def)
      moreover have "\<forall>i<Suc r. CFL ! i \<le> CFL ! r"
        using j(3) True by (auto simp: less_Suc_eq intro: order_trans less_imp_le)
      moreover have "\<forall>i<r. CFL ! i < CFL ! r"
        using j(3) True by (auto intro: le_less_trans)
      ultimately show ?thesis by blast
    next
      case nogt: False
      have "fold (winner_step CFL CL) [0..<Suc r] w = Some (CFL ! j, CL ! j)"
        using j(2) False nogt by (simp add: winner_step_def)
      moreover have "\<forall>i<Suc r. CFL ! i \<le> CFL ! j"
        using j(3) nogt by (auto simp: less_Suc_eq)
      ultimately show ?thesis using j(1,4) less_Suc_eq by blast
    qed
  qed
qed

lemma find_winner_first_max:
  assumes "0 < k" "length CL = nat k"
  shows "\<exists>j. first_max (map f CL) j \<and>
             find_winner k (map f CL) CL w = Some (f (CL ! j), CL ! j)"
proof -
  have "0 < nat k" using assms by simp
  from find_winner_prefix [OF this, of "map f CL" CL w]
  obtain j where j: "j < nat k"
    "fold (winner_step (map f CL) CL) [0..<nat k] w = Some (map f CL ! j, CL ! j)"
    "\<forall>i<nat k. map f CL ! i \<le> map f CL ! j" "\<forall>i<j. map f CL ! i < map f CL ! j"
    by blast
  then have "first_max (map f CL) j" using assms(2) by (simp add: first_max_def)
  moreover have "find_winner k (map f CL) CL w = Some (f (CL ! j), CL ! j)"
    using j(1,2) assms(2) by (simp add: find_winner_def)
  ultimately show ?thesis by blast
qed

lemma find_winner_none: "k \<le> 0 \<Longrightarrow> find_winner k CFL CL w = w"
  by (simp add: find_winner_def)

text \<open>
  The copy loop: a fault stays a fault; a loop that ends without one has read
  \<open>Population\<close> inside the matrix only, and has written the cells of row \<open>Tournament\<close>
  and no other.
\<close>

lemma copy_winner_fault: "fold (copy_winner P NS T w) cols (Inl e) = Inl e"
  by (induction cols) (simp_all add: copy_winner_def)

lemma copy_winner_last:
  assumes "fold (copy_winner P NS T w) [0..<Suc n] (Inr S) = Inr S'"
  shows "\<exists>S1. fold (copy_winner P NS T w) [0..<n] (Inr S) = Inr S1 \<and>
           0 \<le> w + int (nrows P) * int n \<and>
           w + int (nrows P) * int n < int (length (cells P)) \<and>
           S' = S1[T + NS * n := cells P ! nat (w + int (nrows P) * int n)]"
proof (cases "fold (copy_winner P NS T w) [0..<n] (Inr S)")
  case (Inl e)
  with assms show ?thesis by (simp add: copy_winner_def)
next
  case (Inr S1)
  with assms show ?thesis
    by (auto simp: copy_winner_def Let_def split: if_splits)
qed

lemma copy_winner_length:
  "fold (copy_winner P NS T w) [0..<n] (Inr S) = Inr S' \<Longrightarrow> length S' = length S"
proof (induction n arbitrary: S')
  case 0
  then show ?case by simp
next
  case (Suc n)
  from copy_winner_last [OF Suc.prems] obtain S1 where
    "fold (copy_winner P NS T w) [0..<n] (Inr S) = Inr S1"
    "S' = S1[T + NS * n := cells P ! nat (w + int (nrows P) * int n)]"
    by blast
  then show ?case using Suc.IH by simp
qed

lemma copy_winner_other:
  "fold (copy_winner P NS T w) [0..<n] (Inr S) = Inr S' \<Longrightarrow>
   \<forall>col<n. idx \<noteq> T + NS * col \<Longrightarrow> S' ! idx = S ! idx"
proof (induction n arbitrary: S')
  case 0
  then show ?case by simp
next
  case (Suc n)
  from copy_winner_last [OF Suc.prems(1)] obtain S1 where
    "fold (copy_winner P NS T w) [0..<n] (Inr S) = Inr S1"
    "S' = S1[T + NS * n := cells P ! nat (w + int (nrows P) * int n)]"
    by blast
  moreover have "idx \<noteq> T + NS * n" "\<forall>col<n. idx \<noteq> T + NS * col"
    using Suc.prems(2) by simp_all
  ultimately show ?case using Suc.IH by simp
qed

lemma copy_winner_nth:
  assumes "T < NS" "T + NS * col < length S"
  shows "fold (copy_winner P NS T w) [0..<n] (Inr S) = Inr S' \<Longrightarrow> col < n \<Longrightarrow>
         S' ! (T + NS * col) = cells P ! nat (w + int (nrows P) * int col)"
proof (induction n arbitrary: S')
  case 0
  then show ?case by simp
next
  case (Suc n)
  from copy_winner_last [OF Suc.prems(1)] obtain S1 where S1:
    "fold (copy_winner P NS T w) [0..<n] (Inr S) = Inr S1"
    "S' = S1[T + NS * n := cells P ! nat (w + int (nrows P) * int n)]"
    by blast
  have len: "length S1 = length S" using S1(1) by (rule copy_winner_length)
  show ?case
  proof (cases "col = n")
    case True
    then show ?thesis using S1(2) assms(2) len by simp
  next
    case False
    then have "col < n" using Suc.prems(2) by simp
    moreover have "T + NS * col \<noteq> T + NS * n" using False assms(1) by simp
    ultimately show ?thesis using S1 Suc.IH by simp
  qed
qed

lemma copy_winner_total:
  assumes "wf_matrix P" "0 \<le> w" "w < int (nrows P)"
  shows "n \<le> ncols P \<Longrightarrow> \<exists>S'. fold (copy_winner P NS T w) [0..<n] (Inr S) = Inr S'"
proof (induction n)
  case 0
  then show ?case by simp
next
  case (Suc n)
  then obtain S1 where S1: "fold (copy_winner P NS T w) [0..<n] (Inr S) = Inr S1" by auto
  have "nat w + nrows P * n < nrows P * Suc n" using assms(2,3) by simp
  also have "\<dots> \<le> nrows P * ncols P"
    using Suc.prems by (simp add: Suc_leI del: mult_Suc_right)
  finally have "nat w + nrows P * n < length (cells P)" using assms(1) by (simp add: wf_matrix_def)
  then have "int (nat w + nrows P * n) < int (length (cells P))" by (simp only: of_nat_less_iff)
  then have in_range: "w + int (nrows P) * int n < int (length (cells P))"
    using assms(2) by simp
  have "0 \<le> w + int (nrows P) * int n" using assms(2) by simp
  then have "copy_winner P NS T w n (Inr S1) =
      Inr (S1[T + NS * n := cells P ! nat (w + int (nrows P) * int n)])"
    using in_range by (simp add: copy_winner_def Let_def)
  moreover have "fold (copy_winner P NS T w) [0..<Suc n] (Inr S) =
      copy_winner P NS T w n (Inr S1)"
    using S1 by simp
  ultimately have "fold (copy_winner P NS T w) [0..<Suc n] (Inr S) =
      Inr (S1[T + NS * n := cells P ! nat (w + int (nrows P) * int n)])"
    by (simp only:)
  then show ?case by (rule exI)
qed

lemma winner_cell:
  "0 \<le> w \<Longrightarrow> nat (w + int m * int col) = nat w + m * col"
  by (simp add: nat_add_distrib nat_mult_distrib)

lemma tournament_step:
  assumes run: "tournament RM rng k Fitness P NS E T s = Some (Inr s')"
    and w: "k \<le> 0 \<longrightarrow> winner s = None"
  shows "\<exists>CL j. 0 < k \<and> length CL = nat k \<and> first_max (map (\<lambda>c. Fitness ! nat c) CL) j \<and>
           0 \<le> CL ! j \<and>
           contenders s' = contenders s @ [CL] \<and>
           SurvivorFitness s' = (SurvivorFitness s)[T := Fitness ! nat (CL ! j)] \<and>
           fold (copy_winner P NS T (CL ! j)) [0..<ncols P] (Inr (Survivors s)) =
             Inr (Survivors s') \<and>
           winner s' = Some (Fitness ! nat (CL ! j), CL ! j)"
proof -
  from run obtain CL CFL p where
    pick: "pick_contenders RM rng k E (nrows P) Fitness [] [] (draws_made s) = Some (Inr (CL, CFL, p))"
    by (auto simp: tournament_def split: option.splits sum.splits)
  from pick_contenders_shape [OF pick]
  have shape: "CFL = map (\<lambda>c. Fitness ! nat c) CL" "length CL = nat k"
    "\<forall>c\<in>set CL. 0 \<le> c \<and> c < int (length Fitness)" by auto
  have pos: "0 < k"
  proof (rule ccontr)
    assume "\<not> 0 < k"
    then have "find_winner k CFL CL (winner s) = None" using w by (simp add: find_winner_none)
    with run pick show False by (simp add: tournament_def)
  qed
  from find_winner_first_max [OF pos shape(2), of "\<lambda>c. Fitness ! nat c" "winner s"]
  obtain j where j: "first_max (map (\<lambda>c. Fitness ! nat c) CL) j"
    "find_winner k CFL CL (winner s) = Some (Fitness ! nat (CL ! j), CL ! j)"
    using shape(1) by auto
  from j(1) have "j < length CL" by (simp add: first_max_def)
  then have "CL ! j \<in> set CL" by simp
  then have nn: "0 \<le> CL ! j" using shape(3) by simp
  from run pick j(2) obtain S' where S':
    "fold (copy_winner P NS T (CL ! j)) [0..<ncols P] (Inr (Survivors s)) = Inr S'"
    "s' = s\<lparr>SurvivorFitness := (SurvivorFitness s)[T := Fitness ! nat (CL ! j)],
        Survivors := S',
        winner := Some (Fitness ! nat (CL ! j), CL ! j), draws_made := p,
        contenders := contenders s @ [CL]\<rparr>"
    by (auto simp: tournament_def split: sum.splits)
  show ?thesis
    using pos shape(2) j(1) nn S'(1) by (intro exI [of _ CL] exI [of _ j]) (simp add: S'(2))
qed

lemma tournament_inv:
  assumes run: "tournament RM rng k Fitness P NS E T s = Some (Inr s')"
    and inv: "tour_inv k Fitness P NS T s" and T: "T < NS"
  shows "tour_inv k Fitness P NS (T + 1) s'"
proof -
  from inv have w: "k \<le> 0 \<longrightarrow> winner s = None" by (simp add: tour_inv_def)
  from tournament_step [OF run w] obtain CL j where st:
    "0 < k" "length CL = nat k" "first_max (map (\<lambda>c. Fitness ! nat c) CL) j"
    "contenders s' = contenders s @ [CL]"
    "SurvivorFitness s' = (SurvivorFitness s)[T := Fitness ! nat (CL ! j)]"
    "fold (copy_winner P NS T (CL ! j)) [0..<ncols P] (Inr (Survivors s)) = Inr (Survivors s')"
    "winner s' = Some (Fitness ! nat (CL ! j), CL ! j)"
    and nn: "0 \<le> CL ! j"
    by blast
  from inv have len: "length (contenders s) = T" "length (SurvivorFitness s) = NS"
    "length (Survivors s) = NS * ncols P"
    by (simp_all add: tour_inv_def)
  have len': "length (Survivors s') = NS * ncols P"
    using copy_winner_length [OF st(6)] len(3) by simp
  have new: "winner_at Fitness P NS s' T j"
  proof -
    have c: "contenders s' ! T = CL" using st(4) len(1) by (simp add: nth_append)
    have "\<forall>col<ncols P. Survivors s' ! (T + NS * col) = cells P ! (nat (CL ! j) + nrows P * col)"
    proof (intro allI impI)
      fix col assume col: "col < ncols P"
      have "T + NS * col < NS * Suc col" using T by simp
      also have "\<dots> \<le> NS * ncols P" using col by (simp add: Suc_leI del: mult_Suc_right)
      finally have "T + NS * col < length (Survivors s)" using len(3) by simp
      from copy_winner_nth [OF T this st(6) col]
      show "Survivors s' ! (T + NS * col) = cells P ! (nat (CL ! j) + nrows P * col)"
        by (simp only: winner_cell [OF nn])
    qed
    then show ?thesis
      using st(3,5) len(2) T by (simp add: winner_at_def c)
  qed
  have old: "length (contenders s' ! t) = nat k \<and> (\<exists>j. winner_at Fitness P NS s' t j)" if t: "t < T" for t
  proof -
    from inv t obtain j' where j': "length (contenders s ! t) = nat k" "winner_at Fitness P NS s t j'"
      by (auto simp: tour_inv_def)
    have c: "contenders s' ! t = contenders s ! t" using st(4) len(1) t by (simp add: nth_append)
    have f: "SurvivorFitness s' ! t = SurvivorFitness s ! t" using st(5) t by simp
    have g: "Survivors s' ! (t + NS * col) = Survivors s ! (t + NS * col)" for col
    proof -
      have "\<forall>col'<ncols P. t + NS * col \<noteq> T + NS * col'"
      proof (intro allI impI)
        fix col' assume "col' < ncols P"
        have "t < NS" "t \<noteq> T" using t T by simp_all
        then show "t + NS * col \<noteq> T + NS * col'"
          using cell_index_inj [of t NS T col col'] T by (auto simp: mult.commute)
      qed
      then show ?thesis using copy_winner_other [OF st(6)] by simp
    qed
    have "winner_at Fitness P NS s' t j'"
      using j'(2) by (simp add: winner_at_def c f g)
    then show ?thesis using j'(1) c by auto
  qed
  show ?thesis
    unfolding tour_inv_def
    using st(1,2,4,5,7) len len' new old
    by (auto simp: less_Suc_eq nth_append)
qed

lemma tournaments_inv:
  assumes "tournaments RM rng k Fitness P NS E T s = Some (Inr s')"
    and "tour_inv k Fitness P NS T s" and "T \<le> NS"
  shows "tour_inv k Fitness P NS NS s'"
  using assms
proof (induction RM rng k Fitness P NS E T s rule: tournaments.induct)
  case (1 RM rng k Fitness P NS E T s)
  show ?case
  proof (cases "T < NS")
    case False
    with 1(2,3,4) show ?thesis by simp
  next
    case True
    with 1(2) obtain s1 where s1: "tournament RM rng k Fitness P NS E T s = Some (Inr s1)"
      "tournaments RM rng k Fitness P NS E (T + 1) s1 = Some (Inr s')"
      by (auto split: option.splits sum.splits)
    have "tour_inv k Fitness P NS (T + 1) s1"
      using tournament_inv [OF s1(1) 1(3) True] .
    then show ?thesis
      using 1(1) [OF True s1(1) refl s1(2)] True by simp
  qed
qed


lemma TourSel_inv:
  assumes "TourSel RM rng k Fitness P NS E = Some (Inr s)"
  shows "tour_inv k Fitness P NS NS s"
proof -
  let ?s0 = "\<lparr>Survivors = replicate (NS * ncols P) False, SurvivorFitness = replicate NS 0,
      winner = None, draws_made = 0, contenders = []\<rparr>"
  have "tour_inv k Fitness P NS 0 ?s0" by (simp add: tour_inv_def)
  then show ?thesis
    using assms tournaments_inv [of RM rng k Fitness P NS E 0 ?s0 s] by (simp add: TourSel_def)
qed

text \<open>
  A tournament whose draw loop has ended runs to its end: under the preconditions of
  \<open>TourSel\<close> the winner loop assigns \<open>Winner\<close> in its first round, and the copy loop
  reads the row of the winner inside \<open>Population\<close>.
\<close>

lemma tournament_total:
  assumes "draws_ok RM rng" "wf_matrix P" "length Fitness = nrows P"
    and "0 \<le> E" "1 \<le> k" "k \<le> int (nrows P) - E"
    and pick: "pick_contenders RM rng k E (nrows P) Fitness [] [] (draws_made s) =
      Some (Inr (CL, CFL, p'))"
  shows "\<exists>j S'. first_max (map (\<lambda>c. Fitness ! nat c) CL) j \<and> 0 \<le> CL ! j \<and>
     fold (copy_winner P NS T (CL ! j)) [0..<ncols P] (Inr (Survivors s)) = Inr S' \<and>
     tournament RM rng k Fitness P NS E T s =
       Some (Inr (s\<lparr>SurvivorFitness := (SurvivorFitness s)[T := Fitness ! nat (CL ! j)],
                    Survivors := S',
                    winner := Some (Fitness ! nat (CL ! j), CL ! j), draws_made := p',
                    contenders := contenders s @ [CL]\<rparr>))"
proof -
  have E: "E < int (nrows P)" using assms(5,6) by simp
  have m: "nrows P < 2 ^ 31" using assms(2) by (simp add: wf_matrix_def)
  from pick_contenders_shape [OF pick]
  have shape: "CFL = map (\<lambda>c. Fitness ! nat c) CL" "length CL = nat k" by auto
  from pick_contenders_range [OF pick assms(1,4) E m]
  have range: "\<forall>c\<in>set CL. E \<le> c \<and> c < int (nrows P)" by simp
  have pos: "0 < k" using assms(5) by simp
  from find_winner_first_max [OF pos shape(2), of "\<lambda>c. Fitness ! nat c" "winner s"]
  obtain j where j: "first_max (map (\<lambda>c. Fitness ! nat c) CL) j"
    "find_winner k CFL CL (winner s) = Some (Fitness ! nat (CL ! j), CL ! j)"
    using shape(1) by auto
  from j(1) have "j < length CL" by (simp add: first_max_def)
  then have "CL ! j \<in> set CL" by simp
  then have w: "0 \<le> CL ! j" "CL ! j < int (nrows P)" using range assms(4) by auto
  from copy_winner_total [OF assms(2) w, of "ncols P" NS T "Survivors s"]
  obtain S' where S': "fold (copy_winner P NS T (CL ! j)) [0..<ncols P] (Inr (Survivors s)) = Inr S'"
    by auto
  show ?thesis
    using j w(1) S' pick by (intro exI [of _ j] exI [of _ S']) (simp add: tournament_def)
qed



lemma tournament_contenders:
  assumes "tournament RM rng k Fitness P NS E T s = Some (Inr s')"
  shows "\<exists>CL CFL p. pick_contenders RM rng k E (nrows P) Fitness [] [] (draws_made s) =
            Some (Inr (CL, CFL, p)) \<and> contenders s' = contenders s @ [CL]"
  using assms by (auto simp: tournament_def split: option.splits sum.splits)

lemma tournaments_contenders:
  assumes "tournaments RM rng k Fitness P NS E T s = Some (Inr s')"
    and "draws_ok RM rng" "0 \<le> E" "E < int (nrows P)" "nrows P < 2 ^ 31"
    and "\<forall>cs\<in>set (contenders s). contenders_ok E (nrows P) cs"
  shows "\<forall>cs\<in>set (contenders s'). contenders_ok E (nrows P) cs"
  using assms
proof (induction RM rng k Fitness P NS E T s rule: tournaments.induct)
  case (1 RM rng k Fitness P NS E T s)
  show ?case
  proof (cases "T < NS")
    case False
    with 1(2,7) show ?thesis by simp
  next
    case True
    with 1(2) obtain s1 where s1: "tournament RM rng k Fitness P NS E T s = Some (Inr s1)"
      "tournaments RM rng k Fitness P NS E (T + 1) s1 = Some (Inr s')"
      by (auto split: option.splits sum.splits)
    from tournament_contenders [OF s1(1)] obtain CL CFL p where
      pick: "pick_contenders RM rng k E (nrows P) Fitness [] [] (draws_made s) = Some (Inr (CL, CFL, p))"
      and c: "contenders s1 = contenders s @ [CL]"
      by blast
    have "contenders_ok E (nrows P) CL"
      using pick_contenders_range [OF pick 1(3,4,5,6)] by (simp add: contenders_ok_def)
    then have "\<forall>cs\<in>set (contenders s1). contenders_ok E (nrows P) cs"
      using c 1(7) by auto
    then show ?thesis
      using 1(1) [OF True s1(1) refl s1(2) 1(3,4,5,6)] by simp
  qed
qed

lemma contenders_of_run:
  assumes "TourSel RM rng k Fitness Population NoSurvivors Eliterows = Some (Inr s)"
    and "draws_ok RM rng" "wf_matrix Population"
    and "0 \<le> Eliterows" "1 \<le> k" "k \<le> int (nrows Population) - Eliterows"
  shows "length (contenders s) = NoSurvivors \<and>
    (\<forall>cs\<in>set (contenders s). length cs = nat k \<and> distinct cs \<and>
       (\<forall>c\<in>set cs. Eliterows \<le> c \<and> c < int (nrows Population)))"
proof -
  have inv: "tour_inv k Fitness Population NoSurvivors NoSurvivors s"
    using TourSel_inv [OF assms(1)] .
  have E: "Eliterows < int (nrows Population)" using assms(5,6) by simp
  have m: "nrows Population < 2 ^ 31" using assms(3) by (simp add: wf_matrix_def)
  have ok: "\<forall>cs\<in>set (contenders s). contenders_ok Eliterows (nrows Population) cs"
    using assms(1) tournaments_contenders [OF _ assms(2,4) E m, of k Fitness NoSurvivors 0 _ s]
    by (simp add: TourSel_def)
  have len: "\<forall>cs\<in>set (contenders s). length cs = nat k"
    using inv by (auto simp: tour_inv_def in_set_conv_nth)
  show ?thesis
    using inv ok len by (auto simp: tour_inv_def contenders_ok_def)
qed

text \<open>
  Claim C8. On a well-formed population, with draws that \<open>rand()\<close> can return and the
  preconditions \<open>0 \<le> Eliterows\<close> and \<open>1 \<le> k \<le> m - Eliterows\<close>: every contender index
  that is drawn, kept or rejected, lies in \<open>[Eliterows, m)\<close>; whenever the draw loop of a
  tournament ends, its \<open>k\<close> contender indices are pairwise distinct and lie in
  \<open>[Eliterows, m)\<close>; and a run of \<open>TourSel\<close> that returns has held \<open>NoSurvivors\<close>
  tournaments, each with such a list. No index below \<open>Eliterows\<close> is ever a contender.
\<close>

theorem TourSel_contenders:
  assumes "draws_ok RM rng" "wf_matrix Population"
    and "0 \<le> Eliterows" "1 \<le> k" "k \<le> int (nrows Population) - Eliterows"
  shows "(\<forall>p. \<exists>ContenderIndex.
            randr RM (to_uint Eliterows) (to_uint (int (nrows Population) - 1)) (rng p) =
              Some ContenderIndex \<and>
            Eliterows \<le> ContenderIndex \<and> ContenderIndex < int (nrows Population)) \<and>
         (\<forall>p ContenderList ContenderFitnessList p'.
            pick_contenders RM rng k Eliterows (nrows Population) Fitness [] [] p =
              Some (Inr (ContenderList, ContenderFitnessList, p')) \<longrightarrow>
            length ContenderList = nat k \<and> distinct ContenderList \<and>
            (\<forall>c\<in>set ContenderList. Eliterows \<le> c \<and> c < int (nrows Population))) \<and>
         (\<forall>s. TourSel RM rng k Fitness Population NoSurvivors Eliterows = Some (Inr s) \<longrightarrow>
            length (contenders s) = NoSurvivors \<and>
            (\<forall>cs\<in>set (contenders s). length cs = nat k \<and> distinct cs \<and>
               (\<forall>c\<in>set cs. Eliterows \<le> c \<and> c < int (nrows Population))))"
proof (intro conjI allI impI)
  let ?m = "nrows Population"
  have E: "Eliterows < int ?m" using assms(4,5) by simp
  have m: "?m < 2 ^ 31" using assms(2) by (simp add: wf_matrix_def)
  have lo: "to_uint Eliterows = nat Eliterows" using assms(3) E m by (intro to_uint_nat) auto
  have hi: "to_uint (int ?m - 1) = ?m - 1" using E assms(3) m by (intro to_uint_pred) auto
  {
    fix p
    have "\<exists>c. randr RM (nat Eliterows) (?m - 1) (rng p) = Some c \<and>
        int (nat Eliterows) \<le> c \<and> c \<le> int (?m - 1)"
      using assms(1,3) E m by (intro randr_range) (auto simp: draws_ok_def)
    then show "\<exists>ContenderIndex.
        randr RM (to_uint Eliterows) (to_uint (int ?m - 1)) (rng p) = Some ContenderIndex \<and>
        Eliterows \<le> ContenderIndex \<and> ContenderIndex < int ?m"
      unfolding lo hi using assms(3) E by auto
  }
  {
    fix p ContenderList ContenderFitnessList p'
    assume pick: "pick_contenders RM rng k Eliterows ?m Fitness [] [] p =
        Some (Inr (ContenderList, ContenderFitnessList, p'))"
    from pick_contenders_shape [OF pick] show "length ContenderList = nat k" by simp
    from pick_contenders_range [OF pick assms(1,3) E m]
    show "distinct ContenderList"
      "\<forall>c\<in>set ContenderList. Eliterows \<le> c \<and> c < int ?m" by simp_all
  }
  {
    fix s
    assume run: "TourSel RM rng k Fitness Population NoSurvivors Eliterows = Some (Inr s)"
    from contenders_of_run [OF run assms]
    show "length (contenders s) = NoSurvivors"
      "\<forall>cs\<in>set (contenders s). length cs = nat k \<and> distinct cs \<and>
         (\<forall>c\<in>set cs. Eliterows \<le> c \<and> c < int ?m)" by simp_all
  }
qed


theorem TourSel_contenders_witness:
  "TourSel 32767 rng_steps 2 fit4 pop43 3 1 = Some (Inr sel_run3) \<and>
   draws_ok 32767 rng_steps \<and> wf_matrix pop43 \<and> (0::int) \<le> 1 \<and> (1::int) \<le> 2 \<and>
   (2::int) \<le> int (nrows pop43) - 1 \<and>
   contenders sel_run3 = [[1, 2], [3, 1], [2, 3]] \<and>
   length (contenders sel_run3) = 3 \<and> distinct (contenders sel_run3 ! 1)"
proof -
  have run: "TourSel 32767 rng_steps 2 fit4 pop43 3 1 = Some (Inr sel_run3)" by code_simp
  have h: "draws_ok 32767 rng_steps" "wf_matrix pop43"
    by (simp_all add: draws_ok_def rng_steps_def wf_matrix_def pop43_def)
  have a: "(0::int) \<le> 1" "(1::int) \<le> 2" "(2::int) \<le> int (nrows pop43) - 1"
    by (simp_all add: pop43_def)
  have c: "contenders sel_run3 = [[1, 2], [3, 1], [2, 3]]" by (simp add: sel_run3_def)
  from TourSel_contenders [OF h a, where Fitness = fit4 and NoSurvivors = 3] run
  have "length (contenders sel_run3) = 3" "\<forall>cs\<in>set (contenders sel_run3). distinct cs"
    by blast+
  then have "length (contenders sel_run3) = 3" "distinct (contenders sel_run3 ! 1)"
    by (simp_all add: c)
  then show ?thesis using run h a c by simp
qed

section \<open>Properties of the crossover operator\<close>

lemma AlreadyChosen_iff: "AlreadyChosen c xs \<longleftrightarrow> c \<in> set xs"
  by (simp add: AlreadyChosen_def fold_found_iff)

lemma pick_P2_error:
  assumes "pick_P2 RM rng m P1 P2 p = Some y"
  shows "case y of Inl e \<Rightarrow> e = DivisionByZero | Inr (P2', p') \<Rightarrow> P2' \<noteq> P1"
  using assms
proof (induction rule: pick_P2.raw_induct [rotated 1, consumes 1])
  case (1 pick RM rng m P1 P2 p y)
  then show ?case
    by (auto split: if_splits option.splits)
qed

lemma pick_points_shape:
  assumes "pick_points RM rng n N cps p = Some y"
  shows "int (length cps) \<le> max N 0 \<Longrightarrow>
         (case y of Inl e \<Rightarrow> e = DivisionByZero | Inr (cps', p') \<Rightarrow> length cps' = nat N)"
  using assms
proof (induction rule: pick_points.raw_induct [rotated 1, consumes 1])
  case (1 pick RM rng n N cps p y)
  show ?case
  proof (cases "int (length cps) < N")
    case False
    with 1 show ?thesis by (auto split: if_splits)
  next
    case True
    show ?thesis
    proof (cases "randr RM 0 (to_uint (int n - 1)) (rng p)")
      case None
      with 1 True show ?thesis by auto
    next
      case (Some c)
      show ?thesis
      proof (cases "AlreadyChosen c cps")
        case True
        with 1 Some \<open>int (length cps) < N\<close> show ?thesis by auto
      next
        case False
        with 1(2) Some True
        have run: "pick RM rng n N (cps @ [c]) (p + 1) = Some y" by simp
        show ?thesis
          by (rule "1.IH" [OF run]) (use True in auto)
      qed
    qed
  qed
qed

lemma pick_points_range:
  assumes "pick_points RM rng n N cps p = Some y"
  shows "draws_ok RM rng \<Longrightarrow> 0 < n \<Longrightarrow> n < 2 ^ 31 \<Longrightarrow> points_ok n cps \<Longrightarrow>
         (case y of Inl e \<Rightarrow> True | Inr (cps', p') \<Rightarrow> points_ok n cps')"
  using assms
proof (induction rule: pick_points.raw_induct [rotated 1, consumes 1])
  case (1 pick RM rng n N cps p y)
  show ?case
  proof (cases "int (length cps) < N")
    case False
    with 1 show ?thesis by (auto split: if_splits)
  next
    case True
    have hi: "to_uint (int n - 1) = n - 1" using 1 by (intro to_uint_pred) auto
    have "\<exists>c. randr RM 0 (n - 1) (rng p) = Some c \<and> int 0 \<le> c \<and> c \<le> int (n - 1)"
      using 1 by (intro randr_range) (auto simp: draws_ok_def)
    then obtain c where c: "randr RM 0 (to_uint (int n - 1)) (rng p) = Some c" "0 \<le> c" "c < int n"
      using 1 hi by auto
    show ?thesis
    proof (cases "AlreadyChosen c cps")
      case True
      with 1 c \<open>int (length cps) < N\<close> show ?thesis by auto
    next
      case False
      with 1(2) c True
      have run: "pick RM rng n N (cps @ [c]) (p + 1) = Some y" by simp
      show ?thesis
        by (rule "1.IH" [OF run]) (use 1 c False in \<open>auto simp: AlreadyChosen_iff points_ok_def\<close>)
    qed
  qed
qed

lemma store_events: "events (store my r gene v s) = events s"
  by (simp add: store_def)

lemma cross_gene_events:
  "events (snd (cross_gene Parentpool my beyond P1 P2 cps G gene es)) = events (snd es)"
  by (cases es) (simp add: cross_gene_def Let_def store_events)

lemma fold_cross_gene_events:
  "events (snd (fold (cross_gene Parentpool my beyond P1 P2 cps G) genes es)) = events (snd es)"
  by (induction genes arbitrary: es) (simp_all add: cross_gene_events)

lemma crossover_event_result:
  assumes "crossover_event RM rng beyond Parentpool N my G s = Some y"
  shows "case y of Inl e \<Rightarrow> e = DivisionByZero
         | Inr s' \<Rightarrow> \<exists>P1 P2 points p p'.
             pick_points RM rng (ncols Parentpool) N [] p = Some (Inr (points, p')) \<and>
             events s' = events s @ [(P1, P2, sort points)]"
proof -
  show ?thesis
  proof (cases y)
    case (Inl e)
    with assms show ?thesis
      using pick_P2_error pick_points_shape [of RM rng "ncols Parentpool" N "[]"]
      by (fastforce simp: crossover_event_def Let_def split: option.splits sum.splits prod.splits)
  next
    case (Inr s')
    with assms show ?thesis
      by (fastforce simp: crossover_event_def Let_def fold_cross_gene_events
          split: option.splits sum.splits prod.splits)
  qed
qed

lemma crossovers_error:
  assumes "crossovers RM rng beyond Parentpool N my G s = Some (Inl e)"
  shows "e = DivisionByZero"
  using assms
proof (induction RM rng beyond Parentpool N my G s rule: crossovers.induct)
  case (1 RM rng beyond Parentpool N my G s)
  show ?case
  proof (cases "G < my")
    case False
    with 1(2) show ?thesis by simp
  next
    case True
    show ?thesis
    proof (cases "crossover_event RM rng beyond Parentpool N my G s")
      case None
      with 1(2) True show ?thesis by simp
    next
      case (Some y)
      show ?thesis
      proof (cases y)
        case (Inl e')
        with crossover_event_result [OF Some] 1(2) True Some show ?thesis by simp
      next
        case (Inr s1)
        with 1(2) True Some
        have "crossovers RM rng beyond Parentpool N my (G + 1) s1 = Some (Inl e)" by simp
        then show ?thesis using 1(1) [OF True Some Inr] by simp
      qed
    qed
  qed
qed

lemma sort_points_ok:
  assumes "points_ok n points" "length points = nat N"
  shows "cut_points_ok N n (sort points)"
  using assms by (simp add: points_ok_def cut_points_ok_def strict_sorted_iff)

lemma crossovers_events:
  assumes "crossovers RM rng beyond Parentpool N my G s = Some (Inr s')"
    and "draws_ok RM rng" "0 < ncols Parentpool" "ncols Parentpool < 2 ^ 31" "0 < N"
    and "G \<le> my" "length (events s) = G"
    and "\<forall>ev\<in>set (events s). cut_points_ok N (ncols Parentpool) (snd (snd ev))"
  shows "length (events s') = my \<and>
         (\<forall>ev\<in>set (events s'). cut_points_ok N (ncols Parentpool) (snd (snd ev)))"
  using assms
proof (induction RM rng beyond Parentpool N my G s rule: crossovers.induct)
  case (1 RM rng beyond Parentpool N my G s)
  show ?case
  proof (cases "G < my")
    case False
    with 1(2,7,8,9) show ?thesis by simp
  next
    case True
    with 1(2) obtain s1 where s1: "crossover_event RM rng beyond Parentpool N my G s = Some (Inr s1)"
      "crossovers RM rng beyond Parentpool N my (G + 1) s1 = Some (Inr s')"
      by (auto split: option.splits sum.splits)
    from crossover_event_result [OF s1(1)] obtain P1 P2 points p p' where
      pick: "pick_points RM rng (ncols Parentpool) N [] p = Some (Inr (points, p'))"
      and ev: "events s1 = events s @ [(P1, P2, sort points)]"
      by auto
    have "length points = nat N"
      using pick_points_shape [OF pick] 1(6) by simp
    moreover have "points_ok (ncols Parentpool) points"
      using pick_points_range [OF pick 1(3,4,5)] by (simp add: points_ok_def)
    ultimately have "cut_points_ok N (ncols Parentpool) (sort points)"
      by (intro sort_points_ok)
    then have a: "\<forall>ev\<in>set (events s1). cut_points_ok N (ncols Parentpool) (snd (snd ev))"
      using ev 1(9) by auto
    have b: "length (events s1) = G + 1" "G + 1 \<le> my" using ev 1(8) True by simp_all
    show ?thesis
      using 1(1) [OF True s1(1) refl s1(2) 1(3,4,5,6) b(2,1) a] .
  qed
qed

lemma cut_points_of_run:
  assumes "Crossover RM rng beyond Parentpool N my = Some (Inr s)"
    and "draws_ok RM rng" "wf_matrix Parentpool"
  shows "length (events s) = my \<and>
    (\<forall>ev\<in>set (events s). let CrossOverPoints = snd (snd ev) in
       length CrossOverPoints = nat N \<and> distinct CrossOverPoints \<and>
       sorted_wrt (<) CrossOverPoints \<and>
       (\<forall>c\<in>set CrossOverPoints. 0 \<le> c \<and> c < int (ncols Parentpool)))"
proof -
  let ?s0 = "\<lparr>Children = replicate (my * ncols Parentpool) False, rand_calls = 0, writes = [],
      reads = [], events = []\<rparr>"
  from assms(1) have N: "0 < N" "N \<le> int (ncols Parentpool)"
    and run: "crossovers RM rng beyond Parentpool N my 0 ?s0 = Some (Inr s)"
    by (auto simp: Crossover_def Let_def split: if_splits)
  have n: "0 < ncols Parentpool" "ncols Parentpool < 2 ^ 31"
    using N assms(3) by (auto simp: wf_matrix_def)
  have "length (events s) = my \<and>
      (\<forall>ev\<in>set (events s). cut_points_ok N (ncols Parentpool) (snd (snd ev)))"
    using crossovers_events [OF run assms(2) n N(1)] by simp
  then show ?thesis by (simp add: cut_points_ok_def)
qed

text \<open>
  Claim C7. On a well-formed parent pool, with draws that \<open>rand()\<close> can return and a
  valid \<open>N\<close>: whenever the draw loop of a crossover event ends, the cut points handed to
  the segment assignment after the sort are \<open>N\<close> pairwise distinct column indices in
  \<open>[0, n)\<close> in strictly ascending order; and a run of \<open>Crossover\<close> that returns has held
  one event for each of the \<open>my\<close> children, each with such cut points.
\<close>

theorem Crossover_cut_points:
  assumes "draws_ok RM rng" "wf_matrix Parentpool" "0 < N" "N \<le> int (ncols Parentpool)"
  shows "(\<forall>p points p'.
            pick_points RM rng (ncols Parentpool) N [] p = Some (Inr (points, p')) \<longrightarrow>
            (let CrossOverPoints = sort points in
               length CrossOverPoints = nat N \<and> distinct CrossOverPoints \<and>
               sorted_wrt (<) CrossOverPoints \<and>
               (\<forall>c\<in>set CrossOverPoints. 0 \<le> c \<and> c < int (ncols Parentpool)))) \<and>
         (\<forall>s. Crossover RM rng beyond Parentpool N my = Some (Inr s) \<longrightarrow>
            length (events s) = my \<and>
            (\<forall>ev\<in>set (events s). let CrossOverPoints = snd (snd ev) in
               length CrossOverPoints = nat N \<and> distinct CrossOverPoints \<and>
               sorted_wrt (<) CrossOverPoints \<and>
               (\<forall>c\<in>set CrossOverPoints. 0 \<le> c \<and> c < int (ncols Parentpool))))"
proof (intro conjI allI impI)
  let ?n = "ncols Parentpool"
  have n: "0 < ?n" "?n < 2 ^ 31" using assms(2,3,4) by (auto simp: wf_matrix_def)
  {
    fix p points p'
    assume pick: "pick_points RM rng ?n N [] p = Some (Inr (points, p'))"
    have "length points = nat N" using pick_points_shape [OF pick] assms(3) by simp
    moreover have "points_ok ?n points"
      using pick_points_range [OF pick assms(1) n] by (simp add: points_ok_def)
    ultimately have "cut_points_ok N ?n (sort points)" by (intro sort_points_ok)
    then show "let CrossOverPoints = sort points in
        length CrossOverPoints = nat N \<and> distinct CrossOverPoints \<and>
        sorted_wrt (<) CrossOverPoints \<and>
        (\<forall>c\<in>set CrossOverPoints. 0 \<le> c \<and> c < int ?n)"
      by (simp add: cut_points_ok_def Let_def)
  }
  {
    fix s
    assume run: "Crossover RM rng beyond Parentpool N my = Some (Inr s)"
    from cut_points_of_run [OF run assms(1,2)]
    show "length (events s) = my"
      "\<forall>ev\<in>set (events s). let CrossOverPoints = snd (snd ev) in
         length CrossOverPoints = nat N \<and> distinct CrossOverPoints \<and>
         sorted_wrt (<) CrossOverPoints \<and>
         (\<forall>c\<in>set CrossOverPoints. 0 \<le> c \<and> c < int ?n)" by simp_all
  }
qed

text \<open>
  Claim C6. \<open>Crossover\<close> raises \<open>InvalidArgument\<close> exactly when \<open>N > n\<close> or \<open>N \<le> 0\<close>,
  whatever the pool, the draws and \<open>my\<close> are; and with a valid \<open>N\<close> and \<open>my = 0\<close> it
  returns a child matrix without rows, having held no event: no call of \<open>rand()\<close>, no
  store, no read of a cut point.
\<close>

theorem Crossover_InvalidArgument:
  "(Crossover RM rng beyond Parentpool N my = Some (Inl InvalidArgument)) =
     (int (ncols Parentpool) < N \<or> N \<le> 0) \<and>
   (0 < N \<and> N \<le> int (ncols Parentpool) \<longrightarrow>
      Crossover RM rng beyond Parentpool N 0 =
        Some (Inr \<lparr>Children = [], rand_calls = 0, writes = [], reads = [], events = []\<rparr>))"
proof -
  have valid: "Crossover RM rng beyond Parentpool N my \<noteq> Some (Inl InvalidArgument)"
    if N: "0 < N" "N \<le> int (ncols Parentpool)"
  proof
    assume "Crossover RM rng beyond Parentpool N my = Some (Inl InvalidArgument)"
    then have "\<exists>s0. crossovers RM rng beyond Parentpool N my 0 s0 = Some (Inl InvalidArgument)"
      using N by (auto simp: Crossover_def Let_def simp del: crossovers.simps)
    then show False using crossovers_error by blast
  qed
  have invalid: "Crossover RM rng beyond Parentpool N my = Some (Inl InvalidArgument)"
    if "int (ncols Parentpool) < N \<or> N \<le> 0"
    using that by (auto simp: Crossover_def Let_def simp del: crossovers.simps)
  have none: "Crossover RM rng beyond Parentpool N 0 =
      Some (Inr \<lparr>Children = [], rand_calls = 0, writes = [], reads = [], events = []\<rparr>)"
    if "0 < N" "N \<le> int (ncols Parentpool)"
    using that by (simp add: Crossover_def Let_def)
  show ?thesis
    using valid invalid none by (cases "0 < N \<and> N \<le> int (ncols Parentpool)") auto
qed

lemma store_Children_length: "length (Children (store my r gene v s)) = length (Children s)"
  by (simp add: store_def)

lemma cross_gene_Children_length:
  "length (Children (snd (cross_gene Parentpool my beyond P1 P2 cps G gene es))) =
   length (Children (snd es))"
  by (cases es) (simp add: cross_gene_def Let_def store_Children_length)

lemma fold_cross_gene_Children_length:
  "length (Children (snd (fold (cross_gene Parentpool my beyond P1 P2 cps G) genes es))) =
   length (Children (snd es))"
  by (induction genes arbitrary: es) (simp_all add: cross_gene_Children_length)

lemma cross_gene_sibling:
  assumes "G < my"
  shows "(G + 1, gene) \<in> set (writes (snd (cross_gene Parentpool my beyond P1 P2 cps G gene es)))"
  using assms by (cases es) (simp add: cross_gene_def Let_def store_def)

lemma crossover_event_sibling:
  assumes "crossover_event RM rng beyond Parentpool N my G s = Some (Inr s')"
    and "G < my" "0 < ncols Parentpool"
  shows "(G + 1, ncols Parentpool - 1) \<in> set (writes s') \<and>
         length (Children s') = length (Children s)"
proof -
  obtain n' where n: "ncols Parentpool = Suc n'" using assms(3) by (cases "ncols Parentpool") auto
  from assms(1) obtain P1 P2 cps p where
    s': "s' = snd (fold (cross_gene Parentpool my beyond P1 P2 cps G) [0..<ncols Parentpool] (0, s))
           \<lparr>rand_calls := p, events := events
             (snd (fold (cross_gene Parentpool my beyond P1 P2 cps G) [0..<ncols Parentpool] (0, s)))
             @ [(P1, P2, cps)]\<rparr>"
    by (auto simp: crossover_event_def Let_def split: option.splits sum.splits prod.splits)
  have "(G + 1, n') \<in> set (writes (snd (fold (cross_gene Parentpool my beyond P1 P2 cps G)
      [0..<Suc n'] (0, s))))"
    using cross_gene_sibling [OF assms(2)] by simp
  then show ?thesis
    unfolding s' n using fold_cross_gene_Children_length [of Parentpool my beyond P1 P2 cps G
        "[0..<Suc n']" "(0, s)"]
    by simp
qed

lemma crossovers_last_sibling:
  assumes "crossovers RM rng beyond Parentpool N my G s = Some (Inr s')"
    and "G < my" "0 < ncols Parentpool"
  shows "(my, ncols Parentpool - 1) \<in> set (writes s') \<and>
         length (Children s') = length (Children s)"
  using assms
proof (induction RM rng beyond Parentpool N my G s rule: crossovers.induct)
  case (1 RM rng beyond Parentpool N my G s)
  from 1(2,3) obtain s1 where s1: "crossover_event RM rng beyond Parentpool N my G s = Some (Inr s1)"
    "crossovers RM rng beyond Parentpool N my (G + 1) s1 = Some (Inr s')"
    by (auto split: option.splits sum.splits)
  note ev = crossover_event_sibling [OF s1(1) 1(3,4)]
  show ?case
  proof (cases "G + 1 < my")
    case True
    from 1(1) [OF 1(3) s1(1) refl s1(2) True 1(4)] ev show ?thesis by simp
  next
    case False
    then have "G + 1 = my" using 1(3) by simp
    moreover from this s1(2) have "s' = s1" by simp
    ultimately show ?thesis using ev by simp
  qed
qed

text \<open>
  In every run that returns at least one child, the last event stores the sibling into
  row \<open>my\<close>, and for the last gene at the linear index \<open>my * n\<close>, the length of the
  buffer.
\<close>

lemma Crossover_last_sibling_store:
  assumes "Crossover RM rng beyond Parentpool N my = Some (Inr s)" "0 < my"
  shows "(my, ncols Parentpool - 1) \<in> set (writes s) \<and>
         my + (ncols Parentpool - 1) * my = length (Children s)"
proof -
  let ?s0 = "\<lparr>Children = replicate (my * ncols Parentpool) False, rand_calls = 0, writes = [],
      reads = [], events = []\<rparr>"
  from assms(1) have N: "0 < N" "N \<le> int (ncols Parentpool)"
    and run: "crossovers RM rng beyond Parentpool N my 0 ?s0 = Some (Inr s)"
    by (auto simp: Crossover_def Let_def split: if_splits)
  have n: "0 < ncols Parentpool" using N by simp
  from crossovers_last_sibling [OF run assms(2) n]
  have "(my, ncols Parentpool - 1) \<in> set (writes s)"
    "length (Children s) = my * ncols Parentpool" by simp_all
  moreover have "my + (ncols Parentpool - 1) * my = my * ncols Parentpool"
    using n by (cases "ncols Parentpool") simp_all
  ultimately show ?thesis by simp
qed

text \<open>
  Claim C1, at a failing input. With \<open>my = 1\<close> the only event stores into row \<open>0\<close> and
  into row \<open>1\<close>: the test \<open>GeneratedChild < my\<close> before the store of the sibling is the
  loop condition and always holds. The store of row \<open>1\<close> in the last column goes to the
  linear index \<open>1 + 1 * 1 = 2\<close> of a buffer of \<open>2\<close> cells.
\<close>

theorem Crossover_writes_row_my:
  "Crossover 32767 rng_pairs beyond_zero pool32 1 1 = Some (Inr cross_run1) \<and>
   length (Children cross_run1) = 1 * ncols pool32 \<and>
   writes cross_run1 = [(0, 0), (1, 0), (0, 1), (1, 1)] \<and>
   \<not> 1 + 1 * 1 < length (Children cross_run1)"
proof -
  have "Crossover 32767 rng_pairs beyond_zero pool32 1 1 = Some (Inr cross_run1)"
    by code_simp
  then show ?thesis by (simp add: cross_run1_def pool32_def)
qed

text \<open>
  Claim C2, at a failing input. With \<open>my = 2\<close> the first event breeds row \<open>0\<close> of the
  children from the parents \<open>0\<close> and \<open>1\<close>, which both hold \<open>False\<close> in column \<open>1\<close>. The
  second (last) event stores its sibling into row \<open>2\<close>, which in the column-major buffer
  is row \<open>0\<close> of the next column: the returned child \<open>0\<close> holds \<open>True\<close> in column \<open>1\<close>,
  the gene of neither of its parents.
\<close>

theorem Crossover_row0_overwritten:
  "Crossover 32767 rng_pairs beyond_zero pool32 1 2 = Some (Inr cross_run2) \<and>
   events cross_run2 = [(0, 1, [0]), (1, 0, [0])] \<and>
   elem (children_matrix 2 pool32 cross_run2) 0 1 = True \<and>
   elem pool32 0 1 = False \<and> elem pool32 1 1 = False"
proof -
  have "Crossover 32767 rng_pairs beyond_zero pool32 1 2 = Some (Inr cross_run2)"
    by code_simp
  then show ?thesis
    by (simp add: cross_run2_def pool32_def elem_def children_matrix_def)
qed

text \<open>
  Claim C10, at a failing input. With \<open>N = 1\<close>, three genes and the cut point \<open>0\<close>,
  the segment index \<open>e\<close> is \<open>1\<close> when gene \<open>2\<close> is processed, and \<open>CrossOverPoints[1]\<close>
  is read, behind the one entry of the array. The child depends on what the memory
  holds there: gene \<open>2\<close> comes from parent \<open>1\<close> (row \<open>101\<close>) if it is \<open>0\<close>, from parent
  \<open>2\<close> (row \<open>010\<close>) if it is large.
\<close>

theorem Crossover_reads_past_cut_points:
  "Crossover 32767 rng_cut0 beyond_zero pop43 1 1 = Some (Inr cross_read_zero) \<and>
   Crossover 32767 rng_cut0 beyond_big pop43 1 1 = Some (Inr cross_read_big) \<and>
   events cross_read_zero = [(0, 1, [0])] \<and> reads cross_read_zero = [0, 0, 1] \<and>
   row (children_matrix 1 pop43 cross_read_zero) 0 = [True, True, True] \<and>
   row (children_matrix 1 pop43 cross_read_big) 0 = [True, True, False]"
proof -
  have "Crossover 32767 rng_cut0 beyond_zero pop43 1 1 = Some (Inr cross_read_zero)"
    "Crossover 32767 rng_cut0 beyond_big pop43 1 1 = Some (Inr cross_read_big)"
    by code_simp+
  then show ?thesis
    by (simp add: cross_read_zero_def cross_read_big_def row_def elem_def children_matrix_def
        pop43_def upt_rec)
qed

theorem Crossover_InvalidArgument_witness:
  "(0::int) < 1 \<and> (1::int) \<le> int (ncols pop43) \<and>
   Crossover 32767 rng_cut0 beyond_big pop43 1 0 =
     Some (Inr \<lparr>Children = [], rand_calls = 0, writes = [], reads = [], events = []\<rparr>) \<and>
   Crossover 32767 rng_cut0 beyond_big pop43 1 1 \<noteq> Some (Inl InvalidArgument) \<and>
   Crossover 32767 rng_cut0 beyond_big pop43 0 1 = Some (Inl InvalidArgument) \<and>
   Crossover 32767 rng_cut0 beyond_big pop43 4 1 = Some (Inl InvalidArgument)"
  using Crossover_InvalidArgument [of 32767 rng_cut0 beyond_big pop43 1 1]
    Crossover_InvalidArgument [of 32767 rng_cut0 beyond_big pop43 0 1]
    Crossover_InvalidArgument [of 32767 rng_cut0 beyond_big pop43 4 1]
  by (simp add: pop43_def)

theorem Crossover_cut_points_witness:
  "Crossover 32767 rng_steps beyond_big pop43 2 3 = Some (Inr cross_run3) \<and>
   draws_ok 32767 rng_steps \<and> wf_matrix pop43 \<and> (0::int) < 2 \<and>
   (2::int) \<le> int (ncols pop43) \<and> length (events cross_run3) = 3 \<and>
   snd (snd (events cross_run3 ! 0)) = [0, 2] \<and>
   sorted_wrt (<) (snd (snd (events cross_run3 ! 0)))"
proof -
  have run: "Crossover 32767 rng_steps beyond_big pop43 2 3 = Some (Inr cross_run3)"
    by code_simp
  have h: "draws_ok 32767 rng_steps" "wf_matrix pop43"
    by (simp_all add: draws_ok_def rng_steps_def wf_matrix_def pop43_def)
  have e: "events cross_run3 ! 0 \<in> set (events cross_run3)" by (simp add: cross_run3_def)
  have N: "(0::int) < 2" "(2::int) \<le> int (ncols pop43)" by (simp_all add: pop43_def)
  from Crossover_cut_points [OF h N, where beyond = beyond_big and my = 3] run
  have "length (events cross_run3) = 3"
    "\<forall>ev\<in>set (events cross_run3). sorted_wrt (<) (snd (snd ev))"
    by (auto simp: Let_def)
  with e have "length (events cross_run3) = 3"
    "sorted_wrt (<) (snd (snd (events cross_run3 ! 0)))"
    by blast+
  moreover have "snd (snd (events cross_run3 ! 0)) = [0, 2]" by (simp add: cross_run3_def)
  ultimately show ?thesis using run h N by simp
qed

section \<open>The rejection loops\<close>

text \<open>
  A rejection loop ends when it draws a value that it has not drawn before. On a fair
  sequence of draws it does so as long as \<open>randr\<close> can deliver such a value: a loop that
  asks for no more values than \<open>reach\<close> ends, and a loop that asks for more never ends,
  on any sequence of draws that \<open>rand()\<close> can return.
\<close>

lemma fresh_value:
  assumes "finite S" "card S < b"
  shows "\<exists>j<b. int (lo + j) \<notin> S"
proof (rule ccontr)
  assume "\<not> (\<exists>j<b. int (lo + j) \<notin> S)"
  then have sub: "(\<lambda>j. int (lo + j)) ` {..<b} \<subseteq> S" by auto
  have "inj_on (\<lambda>j. int (lo + j)) {..<b}" by (auto simp: inj_on_def)
  then have "card ((\<lambda>j. int (lo + j)) ` {..<b}) = b" by (simp add: card_image)
  then have "b \<le> card S" using card_mono [OF assms(1) sub] by simp
  then show False using assms(2) by simp
qed

lemma randr_Some:
  assumes "lo \<le> hi" "hi < 2 ^ 31"
  shows "\<exists>c. randr RM lo hi r = Some c"
proof -
  have "hi + 2 ^ 32 - lo + 1 = (hi - lo + 1) + 2 ^ 32" using assms(1) by simp
  moreover have "hi - lo + 1 < 2 ^ 32" using assms(2) by simp
  ultimately have "(hi + 2 ^ 32 - lo + 1) mod 2 ^ 32 = hi - lo + 1"
    by (simp only: mod_add_self2 mod_less)
  then show ?thesis unfolding randr_def Let_def by simp
qed

lemma fair_fresh_draw:
  assumes "fair_draws RM rng" "lo \<le> hi" "hi < 2 ^ 31" "finite S"
    and "card S < reach RM (hi - lo + 1)"
  shows "\<exists>q\<ge>p. \<exists>c. randr RM lo hi (rng q) = Some c \<and> c \<notin> S"
proof -
  let ?d = "RM div (hi - lo + 1) + 1"
  from fresh_value [OF assms(4,5), of lo] obtain j where
    j: "j < reach RM (hi - lo + 1)" "int (lo + j) \<notin> S" by blast
  have "j \<le> RM div ?d" using j(1) by (simp add: reach_def)
  then have "j * ?d \<le> (RM div ?d) * ?d" by (rule mult_le_mono1)
  also have "\<dots> \<le> RM" by (rule div_times_less_eq_dividend)
  finally have le: "j * ?d \<le> RM" .
  then obtain q where q: "q \<ge> p" "rng q = j * ?d"
    using assms(1) by (auto simp: fair_draws_def)
  have "randr RM lo hi (j * ?d) = Some (int (lo + (j * ?d) div ?d))"
    using randr_value(1) [OF assms(2,3) le] .
  moreover have "j * ?d div ?d = j" by (rule div_mult_self_is_m) simp
  ultimately have "randr RM lo hi (rng q) = Some (int (lo + j))"
    using q(2) by (simp only:)
  then show ?thesis using q(1) j(2) by blast
qed

text \<open>Skipping rejected draws up to a fresh one.\<close>

lemma pick_points_next:
  assumes "int (length cps) < N" "0 < n" "n < 2 ^ 31"
    and "randr RM 0 (to_uint (int n - 1)) (rng q) = Some c" "c \<notin> set cps" "p \<le> q"
  shows "\<exists>c' p'. pick_points RM rng n N cps p = pick_points RM rng n N (cps @ [c']) p'"
  using assms(6)
proof (induction "q - p" arbitrary: p)
  case 0
  then have "p = q" by simp
  then show ?case
    using assms(1,4,5) by (subst pick_points.simps) (auto simp: AlreadyChosen_iff)
next
  case (Suc d)
  have hi: "to_uint (int n - 1) = n - 1" using assms(2,3) by (intro to_uint_pred) auto
  have nm: "0 \<le> n - 1" "n - 1 < 2 ^ 31" using assms(3) by simp_all
  obtain c0 where c0: "randr RM 0 (to_uint (int n - 1)) (rng p) = Some c0"
    using randr_Some [OF nm, of RM "rng p"] unfolding hi by blast
  show ?case
  proof (cases "c0 \<in> set cps")
    case False
    then show ?thesis
      using assms(1) c0 by (subst pick_points.simps) (auto simp: AlreadyChosen_iff)
  next
    case True
    have "d = q - (p + 1)" "p + 1 \<le> q" using Suc(2,3) by simp_all
    from Suc(1) [OF this] obtain c' p' where
      "pick_points RM rng n N cps (p + 1) = pick_points RM rng n N (cps @ [c']) p'" by blast
    moreover have "pick_points RM rng n N cps p = pick_points RM rng n N cps (p + 1)"
      using assms(1) c0 True by (subst pick_points.simps) (simp add: AlreadyChosen_iff)
    ultimately show ?thesis by metis
  qed
qed

lemma pick_points_terminates:
  assumes "fair_draws RM rng" "0 < n" "n < 2 ^ 31" "N \<le> int (reach RM n)"
  shows "\<exists>points p'. pick_points RM rng n N cps p = Some (Inr (points, p'))"
proof (induction "nat N - length cps" arbitrary: cps p)
  case 0
  then have "\<not> int (length cps) < N" by simp
  then show ?case by (subst pick_points.simps) simp
next
  case (Suc d)
  then have lt: "int (length cps) < N" by simp
  have hi: "to_uint (int n - 1) = n - 1" using assms(2,3) by (intro to_uint_pred) auto
  have nm: "0 \<le> n - 1" "n - 1 < 2 ^ 31" using assms(3) by simp_all
  have "card (set cps) \<le> length cps" by (rule card_length)
  then have "card (set cps) < reach RM (n - 1 - 0 + 1)" using lt assms(2,4) by simp
  from fair_fresh_draw [OF assms(1) nm _ this, of p]
  obtain q c where q: "q \<ge> p" "randr RM 0 (n - 1) (rng q) = Some c" "c \<notin> set cps"
    by auto
  have q2: "randr RM 0 (to_uint (int n - 1)) (rng q) = Some c" using q(2) hi by simp
  from pick_points_next [where rng = rng and q = q, OF lt assms(2,3) q2 q(3) q(1)]
  obtain c' p' where step: "pick_points RM rng n N cps p = pick_points RM rng n N (cps @ [c']) p'"
    by auto
  have "d = nat N - length (cps @ [c'])" using Suc(2) by simp
  from Suc(1) [OF this] show ?case using step by simp
qed

lemma pick_P2_next:
  assumes "0 < m" "m < 2 ^ 31"
    and "randr RM 0 (to_uint (int m - 1)) (rng q) = Some c" "c \<noteq> P1" "p \<le> q"
  shows "\<exists>P2' p'. pick_P2 RM rng m P1 P1 p = Some (Inr (P2', p'))"
  using assms(5)
proof (induction "q - p" arbitrary: p)
  case 0
  then have "p = q" by simp
  then show ?case
    using assms(3,4)
    by (subst pick_P2.simps) (simp, subst pick_P2.simps, simp)
next
  case (Suc d)
  have hi: "to_uint (int m - 1) = m - 1" using assms(1,2) by (intro to_uint_pred) auto
  have nm: "0 \<le> m - 1" "m - 1 < 2 ^ 31" using assms(2) by simp_all
  obtain c0 where c0: "randr RM 0 (to_uint (int m - 1)) (rng p) = Some c0"
    using randr_Some [OF nm, of RM "rng p"] unfolding hi by blast
  have step: "pick_P2 RM rng m P1 P1 p = pick_P2 RM rng m P1 c0 (p + 1)"
    using c0 by (subst pick_P2.simps) simp
  show ?case
  proof (cases "c0 = P1")
    case False
    then have "pick_P2 RM rng m P1 c0 (p + 1) = Some (Inr (c0, p + 1))"
      by (subst pick_P2.simps) simp
    then show ?thesis using step by simp
  next
    case True
    have "d = q - (p + 1)" "p + 1 \<le> q" using Suc(2,3) by simp_all
    from Suc(1) [OF this] show ?thesis using step True by simp
  qed
qed

lemma pick_P2_terminates:
  assumes "fair_draws RM rng" "0 < m" "m < 2 ^ 31" "2 \<le> reach RM m"
  shows "\<exists>P2' p'. pick_P2 RM rng m P1 P2 p = Some (Inr (P2', p'))"
proof (cases "P1 = P2")
  case False
  then show ?thesis by (subst pick_P2.simps) simp
next
  case True
  have hi: "to_uint (int m - 1) = m - 1" using assms(2,3) by (intro to_uint_pred) auto
  have nm: "0 \<le> m - 1" "m - 1 < 2 ^ 31" using assms(3) by simp_all
  have "card {P1} < reach RM (m - 1 - 0 + 1)" using assms(2,4) by simp
  from fair_fresh_draw [OF assms(1) nm _ this, of p]
  obtain q c where q: "q \<ge> p" "randr RM 0 (m - 1) (rng q) = Some c" "c \<noteq> P1"
    by auto
  have q2: "randr RM 0 (to_uint (int m - 1)) (rng q) = Some c" using q(2) hi by simp
  from pick_P2_next [where rng = rng and q = q, OF assms(2,3) q2 q(3) q(1)]
  show ?thesis using True by simp
qed

lemma pick_contenders_next:
  assumes "int (length CL) < k" "0 \<le> E" "E < int m" "m < 2 ^ 31"
    and "draws_ok RM rng" "m \<le> length Fitness"
    and "randr RM (to_uint E) (to_uint (int m - 1)) (rng q) = Some c" "c \<notin> set CL" "p \<le> q"
  shows "\<exists>c' f' p'. pick_contenders RM rng k E m Fitness CL CFL p =
           pick_contenders RM rng k E m Fitness (CL @ [c']) (CFL @ [f']) p'"
  using assms(9)
proof (induction "q - p" arbitrary: p)
  case 0
  have lo: "to_uint E = nat E" using assms(2,3,4) by (intro to_uint_nat) auto
  have hi: "to_uint (int m - 1) = m - 1" using assms(2,3,4) by (intro to_uint_pred) auto
  have nm: "nat E \<le> m - 1" "m - 1 < 2 ^ 31" using assms(2,3,4) by simp_all
  have "rng q \<le> RM" using assms(5) by (simp add: draws_ok_def)
  from randr_range [OF nm this] assms(7)
  have "0 \<le> c" "c < int (length Fitness)" using assms(2,3,6) unfolding lo hi by auto
  moreover from 0 have "p = q" by simp
  ultimately show ?case
    using assms(1,7,8) by (subst pick_contenders.simps) (auto simp: AlreadyInTour_iff)
next
  case (Suc d)
  have lo: "to_uint E = nat E" using assms(2,3,4) by (intro to_uint_nat) auto
  have hi: "to_uint (int m - 1) = m - 1" using assms(2,3,4) by (intro to_uint_pred) auto
  have nm: "nat E \<le> m - 1" "m - 1 < 2 ^ 31" using assms(2,3,4) by simp_all
  have "rng p \<le> RM" using assms(5) by (simp add: draws_ok_def)
  from randr_range [OF nm this]
  obtain c0 where c0: "randr RM (to_uint E) (to_uint (int m - 1)) (rng p) = Some c0"
    and r0: "0 \<le> c0" "c0 < int (length Fitness)"
    using assms(2,3,6) unfolding lo hi by auto
  show ?case
  proof (cases "c0 \<in> set CL")
    case False
    then show ?thesis
      using assms(1) c0 r0 by (subst pick_contenders.simps) (auto simp: AlreadyInTour_iff)
  next
    case True
    have "d = q - (p + 1)" "p + 1 \<le> q" using Suc(2,3) by simp_all
    from Suc(1) [OF this] obtain c' f' p' where
      "pick_contenders RM rng k E m Fitness CL CFL (p + 1) =
       pick_contenders RM rng k E m Fitness (CL @ [c']) (CFL @ [f']) p'" by blast
    moreover have "pick_contenders RM rng k E m Fitness CL CFL p =
        pick_contenders RM rng k E m Fitness CL CFL (p + 1)"
      using assms(1) c0 True by (subst pick_contenders.simps) (simp add: AlreadyInTour_iff)
    ultimately show ?thesis by metis
  qed
qed

lemma pick_contenders_terminates:
  assumes "fair_draws RM rng" "0 \<le> E" "E < int m" "m < 2 ^ 31"
    and "draws_ok RM rng" "m \<le> length Fitness"
    and "k \<le> int (reach RM (m - nat E))"
  shows "\<exists>CL' CFL' p'. pick_contenders RM rng k E m Fitness CL CFL p = Some (Inr (CL', CFL', p'))"
proof (induction "nat k - length CL" arbitrary: CL CFL p)
  case 0
  then have "\<not> int (length CL) < k" by simp
  then show ?case by (subst pick_contenders.simps) simp
next
  case (Suc d)
  then have lt: "int (length CL) < k" by simp
  have lo: "to_uint E = nat E" using assms(2,3,4) by (intro to_uint_nat) auto
  have hi: "to_uint (int m - 1) = m - 1" using assms(2,3,4) by (intro to_uint_pred) auto
  have nm: "nat E \<le> m - 1" "m - 1 < 2 ^ 31" using assms(2,3,4) by simp_all
  have w: "m - 1 - nat E + 1 = m - nat E" using assms(2,3) by simp
  have "card (set CL) \<le> length CL" by (rule card_length)
  then have "card (set CL) < reach RM (m - 1 - nat E + 1)" using lt assms(7) unfolding w by simp
  from fair_fresh_draw [OF assms(1) nm _ this, of p]
  obtain q c where q: "q \<ge> p" "randr RM (nat E) (m - 1) (rng q) = Some c" "c \<notin> set CL"
    by auto
  have q2: "randr RM (to_uint E) (to_uint (int m - 1)) (rng q) = Some c"
    using q(2) lo hi by simp
  from pick_contenders_next [where rng = rng and q = q, OF lt assms(2,3,4,5,6) q2 q(3) q(1)]
  obtain c' f' p' where step: "pick_contenders RM rng k E m Fitness CL CFL p =
      pick_contenders RM rng k E m Fitness (CL @ [c']) (CFL @ [f']) p'"
    by blast
  have "d = nat k - length (CL @ [c'])" using Suc(2) by simp
  from Suc(1) [OF this] show ?case using step by simp
qed

lemma tournament_terminates:
  assumes "fair_draws RM rng" "draws_ok RM rng" "wf_matrix P" "length Fitness = nrows P"
    and "0 \<le> E" "1 \<le> k" "k \<le> int (nrows P) - E"
    and "k \<le> int (reach RM (nrows P - nat E))"
  shows "\<exists>s'. tournament RM rng k Fitness P NS E T s = Some (Inr s')"
proof -
  have m: "E < int (nrows P)" "nrows P < 2 ^ 31"
    using assms(3,6,7) by (simp_all add: wf_matrix_def)
  have f: "nrows P \<le> length Fitness" using assms(4) by simp
  obtain CL CFL p where pick:
    "pick_contenders RM rng k E (nrows P) Fitness [] [] (draws_made s) = Some (Inr (CL, CFL, p))"
    using pick_contenders_terminates [OF assms(1,5) m assms(2) f assms(8)] by blast
  from tournament_total [OF assms(2,3,4,5,6,7) pick, of NS T] show ?thesis by blast
qed

lemma tournaments_terminates:
  assumes "fair_draws RM rng" "draws_ok RM rng" "wf_matrix P" "length Fitness = nrows P"
    and "0 \<le> E" "1 \<le> k" "k \<le> int (nrows P) - E"
    and "k \<le> int (reach RM (nrows P - nat E))"
  shows "\<exists>s'. tournaments RM rng k Fitness P NS E T s = Some (Inr s')"
proof (induction "NS - T" arbitrary: T s)
  case 0
  then show ?case by simp
next
  case (Suc d)
  then have lt: "T < NS" by simp
  obtain s1 where s1: "tournament RM rng k Fitness P NS E T s = Some (Inr s1)"
    using tournament_terminates [OF assms] by blast
  have "d = NS - (T + 1)" using Suc(2) by simp
  from Suc(1) [OF this, of s1] obtain s' where
    "tournaments RM rng k Fitness P NS E (T + 1) s1 = Some (Inr s')" by blast
  then show ?case using lt s1 by simp
qed

lemma TourSel_terminates:
  assumes "fair_draws RM rng" "draws_ok RM rng" "wf_matrix P" "length Fitness = nrows P"
    and "0 \<le> E" "1 \<le> k" "k \<le> int (nrows P) - E"
    and "k \<le> int (reach RM (nrows P - nat E))"
  shows "\<exists>s. TourSel RM rng k Fitness P NS E = Some (Inr s)"
  using tournaments_terminates [OF assms] by (simp add: TourSel_def del: tournaments.simps)

text \<open>
  A draw loop that asks for more contenders than \<open>randr\<close> can deliver never ends: its
  list holds distinct values of \<open>randr\<close>, so it stays shorter than \<open>k\<close>.
\<close>

lemma pick_contenders_starved:
  assumes "pick_contenders RM rng k E m Fitness CL CFL p = Some y"
  shows "draws_ok RM rng \<Longrightarrow> 0 \<le> E \<Longrightarrow> E < int m \<Longrightarrow> m < 2 ^ 31 \<Longrightarrow> m \<le> length Fitness \<Longrightarrow>
         int (reach RM (m - nat E)) < k \<Longrightarrow> distinct CL \<Longrightarrow>
         (\<forall>c\<in>set CL. E \<le> c \<and> c < E + int (reach RM (m - nat E))) \<Longrightarrow> False"
  using assms
proof (induction rule: pick_contenders.raw_induct [rotated 1, consumes 1])
  case (1 pick RM rng k E m Fitness CL CFL p y)
  let ?R = "reach RM (m - nat E)"
  have "set CL \<subseteq> {E..<E + int ?R}" using 1(10) by auto
  then have "card (set CL) \<le> card {E..<E + int ?R}" by (intro card_mono) simp_all
  then have "length CL \<le> ?R" using 1(9) by (simp add: distinct_card)
  then have lt: "int (length CL) < k" using 1(8) by simp
  have lo: "to_uint E = nat E" using 1(4,5,6) by (intro to_uint_nat) auto
  have hi: "to_uint (int m - 1) = m - 1" using 1(4,5,6) by (intro to_uint_pred) auto
  have nm: "nat E \<le> m - 1" "m - 1 < 2 ^ 31" using 1(4,5,6) by simp_all
  have w: "m - 1 - nat E + 1 = m - nat E" using 1(4,5) by simp
  have r: "rng p \<le> RM" using 1(3) by (simp add: draws_ok_def)
  let ?q = "rng p div (RM div (m - nat E) + 1)"
  let ?c = "int (nat E + ?q)"
  from randr_value [OF nm r]
  have c: "randr RM (to_uint E) (to_uint (int m - 1)) (rng p) = Some ?c" "nat E + ?q \<le> m - 1"
    unfolding lo hi w by simp_all
  have "?q \<le> RM div (RM div (m - nat E) + 1)" using r by (rule div_le_mono)
  then have up: "?c < E + int ?R" using 1(4) by (simp add: reach_def)
  have low: "E \<le> ?c" using 1(4) by simp
  have "nat E + ?q < m" using c(2) 1(4,5) by linarith
  then have "nat E + ?q < length Fitness" using 1(7) by simp
  then have "?c < int (length Fitness)" by (simp only: of_nat_less_iff)
  moreover have "0 \<le> ?c" by (rule of_nat_0_le_iff)
  ultimately have inside: "\<not> (?c < 0 \<or> int (length Fitness) \<le> ?c)" by arith
  show ?case
  proof (cases "AlreadyInTour ?c CL")
    case True
    with 1(2) c(1) lt have "pick RM rng k E m Fitness CL CFL (p + 1) = Some y" by simp
    then show ?thesis using "1.IH" 1(3-10) by blast
  next
    case False
    with 1(2) c(1) lt inside
    have run: "pick RM rng k E m Fitness (CL @ [?c]) (CFL @ [Fitness ! nat ?c]) (p + 1) = Some y"
      by simp
    have d: "distinct (CL @ [?c])" using False 1(9) by (simp add: AlreadyInTour_iff)
    have rg: "\<forall>c\<in>set (CL @ [?c]). E \<le> c \<and> c < E + int ?R" using 1(10) low up by auto
    show ?thesis using "1.IH" [OF run 1(3-8) d rg] .
  qed
qed

lemma pick_P2_one_row:
  assumes "pick_P2 RM rng m P1 P2 p = Some y"
  shows "draws_ok RM rng \<Longrightarrow> m = 1 \<Longrightarrow> P1 = 0 \<Longrightarrow> P2 = 0 \<Longrightarrow> False"
  using assms
proof (induction rule: pick_P2.raw_induct [rotated 1, consumes 1])
  case (1 pick RM rng m P1 P2 p y)
  have "rng p \<le> RM" using 1(3) by (simp add: draws_ok_def)
  from randr_value [OF _ _ this, of 0 0]
  have "randr RM 0 0 (rng p) = Some 0" by simp
  then have "pick RM rng m P1 0 (p + 1) = Some y"
    using 1(2,4,5,6) by (simp add: to_uint_def)
  then show ?case using "1.IH" 1(3,4,5) by blast
qed

lemma pick_contenders_stuck:
  assumes "pick_contenders RM rng k E m Fitness CL CFL p = Some y"
  shows "(\<forall>p. randr RM (to_uint E) (to_uint (int m - 1)) (rng p) = Some c) \<Longrightarrow>
         c \<in> set CL \<Longrightarrow> int (length CL) < k \<Longrightarrow> False"
  using assms
proof (induction rule: pick_contenders.raw_induct [rotated 1, consumes 1])
  case (1 pick RM rng k E m Fitness CL CFL p y)
  have "pick RM rng k E m Fitness CL CFL (p + 1) = Some y"
    using 1(2,3,4,5) by (simp add: AlreadyInTour_iff)
  then show ?case using "1.IH" 1(3,4,5) by blast
qed

lemma rng_cycle_fair: "fair_draws 32767 rng_cycle"
  unfolding fair_draws_def rng_cycle_def
proof (intro allI impI)
  fix v p :: nat assume "v \<le> 32767"
  then have "(v + 32768 * p) mod 32768 = v" by simp
  moreover have "p \<le> v + 32768 * p" by simp
  ultimately show "\<exists>q\<ge>p. q mod 32768 = v" by blast
qed

lemma rng_cycle_ok: "draws_ok 32767 rng_cycle"
proof -
  have "rng_cycle p \<le> 32767" for p
  proof -
    have "p mod 32768 < 32768" by simp
    then show ?thesis unfolding rng_cycle_def by linarith
  qed
  then show ?thesis by (simp add: draws_ok_def)
qed

text \<open>
  Not every sequence of draws ends a rejection loop either: when \<open>rand()\<close> returns
  \<open>RAND_MAX\<close> at every call, a tournament of \<open>k = 2\<close> among four individuals draws
  contender \<open>3\<close> for ever.
\<close>

lemma TourSel_constant_draws: "TourSel 32767 rng_max 2 fit4 pop43 1 0 = None"
proof -
  have r3: "randr 32767 (to_uint 0) (to_uint (int 4 - 1)) (rng_max p) = Some 3" for p
    by (simp add: randr_def to_uint_def to_int_def rng_max_def)
  have "pick_contenders 32767 rng_max 2 0 4 Fitness [3] CFL p = None" for Fitness CFL p
    using pick_contenders_stuck [of 32767 rng_max 2 0 4 Fitness "[3]" CFL p _ 3] r3
    by (cases "pick_contenders 32767 rng_max 2 0 4 Fitness [3] CFL p") auto
  then have "pick_contenders 32767 rng_max 2 0 4 fit4 [] [] 0 = None"
    using r3 [of 0] by (subst pick_contenders.simps) (simp add: AlreadyInTour_def fit4_def)
  then show ?thesis
    by (simp add: TourSel_def tournament_def pop43_def)
qed

text \<open>
  Claim C9, at failing inputs. Both calls satisfy the preconditions and are made on the
  fair sequence of draws \<open>0, 1, \<dots>, 32767, 0, 1, \<dots>\<close>. \<open>randr(0, 249)\<close> divides \<open>rand()\<close>
  by \<open>RAND_MAX / 250 + 1 = 132\<close> and so returns the indices \<open>0\<close> to \<open>248\<close> only: a
  tournament of \<open>k = 250\<close> contenders among \<open>250\<close> individuals never finds its last
  contender, and \<open>while (Contender < k)\<close> never ends. And on a pool of one parent with
  two genes, \<open>N = 1\<close> and \<open>my = 1\<close>, \<open>randr(0, 0)\<close> is \<open>0\<close> at every draw, both parents
  are row \<open>0\<close>, and \<open>while (P1 == P2)\<close> never ends.
\<close>

theorem rejection_loops_never_end:
  "wf_matrix pop250 \<and> length fit250 = nrows pop250 \<and> (0::int) \<le> 0 \<and> (1::int) \<le> 250 \<and>
   (250::int) \<le> int (nrows pop250) - 0 \<and> draws_ok 32767 rng_cycle \<and>
   reach 32767 250 = 249 \<and>
   TourSel 32767 rng_cycle 250 fit250 pop250 1 0 = None \<and>
   wf_matrix pool12 \<and> (1::int) \<le> 1 \<and> (1::int) < int (ncols pool12) \<and>
   Crossover 32767 rng_cycle beyond_zero pool12 1 1 = None"
proof -
  have wf: "wf_matrix pool12" "wf_matrix pop250" "length fit250 = nrows pop250"
    by (simp_all add: wf_matrix_def pool12_def pop250_def fit250_def)
  have a: "(250::int) \<le> int (nrows pop250) - 0" "(1::int) < int (ncols pool12)"
    by (simp_all add: pop250_def pool12_def)
  have ok: "draws_ok 32767 rng_cycle" by (rule rng_cycle_ok)
  have rc: "reach 32767 250 = 249" by (simp add: reach_def)
  have "pick_contenders 32767 rng_cycle 250 0 250 fit250 [] [] 0 = None"
  proof (cases "pick_contenders 32767 rng_cycle 250 0 250 fit250 [] [] 0")
    case None
    then show ?thesis .
  next
    case (Some y)
    from pick_contenders_starved [OF Some ok] show ?thesis
      by (simp add: rc fit250_def)
  qed
  then have t: "TourSel 32767 rng_cycle 250 fit250 pop250 1 0 = None"
    by (simp add: TourSel_def tournament_def pop250_def)
  have r0: "randr 32767 0 0 r = Some 0" if "r \<le> 32767" for r
    using randr_value [OF _ _ that, of 0 0] by simp
  have "pick_P2 32767 rng_cycle 1 0 0 p = None" for p
    using pick_P2_one_row [OF _ ok, of 1 0 0 p] by (cases "pick_P2 32767 rng_cycle 1 0 0 p") auto
  then have x: "Crossover 32767 rng_cycle beyond_zero pool12 1 1 = None"
    by (simp add: Crossover_def pool12_def crossover_event_def to_uint_def r0 rng_cycle_def)
  show ?thesis using wf a ok rc t x by simp
qed


end
